theory Spec2Isabelle
  imports Main "HOL-Library.Char_ord"
begin

section \<open>Strings as Python uses them\<close>

text \<open>
  A string is a list of characters, and a character stands for the code point of its
  value, U+0000 to U+00FF. The helpers below are the Python string operations that
  \<open>main.py\<close> calls, as they act on these code points: \<open>str.startswith\<close>,
  \<open>str.endswith\<close>, the substring test \<open>sub in s\<close>, \<open>str.lower\<close>, \<open>str.strip\<close>,
  \<open>str.split(sep)\<close> with a one-character separator, the class \<open>\w\<close> of \<open>re\<close>,
  and the decimal text of a counter in an f-string.
\<close>

definition startswith :: "string \<Rightarrow> string \<Rightarrow> bool" where
  "startswith s p = (take (length p) s = p)"

fun contains :: "string \<Rightarrow> string \<Rightarrow> bool" where
  "contains [] sub = (sub = [])"
| "contains (c # cs) sub = (startswith (c # cs) sub \<or> contains cs sub)"

definition endswith :: "string \<Rightarrow> string \<Rightarrow> bool" where
  "endswith s p = (length p \<le> length s \<and> drop (length s - length p) s = p)"

text \<open>
  \<open>str.lower\<close>: the letters A to Z and the upper-case letters of U+00C0 to U+00DE
  (all but the multiplication sign U+00D7) move up by 32.
\<close>

definition lower_char :: "char \<Rightarrow> char" where
  "lower_char c =
     (let n = (of_char c :: nat)
      in if (65 \<le> n \<and> n \<le> 90) \<or> (192 \<le> n \<and> n \<le> 222 \<and> n \<noteq> 215)
         then char_of (n + 32) else c)"

definition lower :: "string \<Rightarrow> string" where
  "lower s = map lower_char s"

text \<open>
  \<open>str.isspace\<close>, which is also the class \<open>\s\<close> of \<open>re\<close>: tab to carriage return,
  the four separators 28 to 31, space, next line (U+0085) and no-break space (U+00A0).
\<close>

definition is_space :: "char \<Rightarrow> bool" where
  "is_space c =
     (let n = (of_char c :: nat)
      in (9 \<le> n \<and> n \<le> 13) \<or> (28 \<le> n \<and> n \<le> 32) \<or> n = 133 \<or> n = 160)"

definition strip :: "string \<Rightarrow> string" where
  "strip s = rev (dropWhile is_space (rev (dropWhile is_space s)))"

text \<open>\<open>s.split(sep)\<close>: cut at every separator; the result always has at least one piece.\<close>

fun split_on :: "char \<Rightarrow> string \<Rightarrow> string list" where
  "split_on sep [] = [[]]"
| "split_on sep (c # cs) =
     (if c = sep then [] # split_on sep cs
      else (case split_on sep cs of
              [] \<Rightarrow> [[c]]
            | p # ps \<Rightarrow> (c # p) # ps))"

text \<open>
  The class \<open>\w\<close>: digits, letters and the underscore; beyond ASCII the letters and
  digit-like signs of U+00AA to U+00FF.
\<close>

definition is_word :: "char \<Rightarrow> bool" where
  "is_word c =
     (let n = (of_char c :: nat)
      in (48 \<le> n \<and> n \<le> 57) \<or> (65 \<le> n \<and> n \<le> 90) \<or> n = 95 \<or> (97 \<le> n \<and> n \<le> 122)
         \<or> n = 170 \<or> n = 178 \<or> n = 179 \<or> n = 181 \<or> n = 185 \<or> n = 186
         \<or> (188 \<le> n \<and> n \<le> 190) \<or> (192 \<le> n \<and> n \<le> 214) \<or> (216 \<le> n \<and> n \<le> 246)
         \<or> 248 \<le> n)"

text \<open>\<open>f"{counter}"\<close>: the decimal digits of a number, and the number they spell.\<close>

fun str_nat :: "nat \<Rightarrow> string" where
  "str_nat n =
     (if n < 10 then [char_of (48 + n)] else str_nat (n div 10) @ [char_of (48 + n mod 10)])"

definition nat_of_digits :: "string \<Rightarrow> nat" where
  "nat_of_digits s = foldl (\<lambda>a c. 10 * a + (of_char c - 48)) 0 s"

text \<open>\<open>sep.join(pieces)\<close>\<close>

fun join_with :: "string \<Rightarrow> string list \<Rightarrow> string" where
  "join_with sep [] = []"
| "join_with sep [x] = x"
| "join_with sep (x # y # ys) = x @ sep @ join_with sep (y # ys)"

section \<open>The two regular expressions of the source\<close>

text \<open>
  \<open>re.findall\<close> scans from left to right; at each position it tries the pattern, and
  after a match it resumes at the end of the match. Both patterns of the source match at
  least four characters, so no empty match arises. A matcher returns the reported string
  and the length of the whole match; the counter skips the characters of the last match.
\<close>

fun findall :: "(string \<Rightarrow> (string \<times> nat) option) \<Rightarrow> nat \<Rightarrow> string \<Rightarrow> string list" where
  "findall m k [] = []"
| "findall m (Suc k) (c # cs) = findall m k cs"
| "findall m 0 (c # cs) =
     (case m (c # cs) of
        Some (g, len) \<Rightarrow> g # findall m (len - 1) cs
      | None \<Rightarrow> findall m 0 cs)"

definition is_quote :: "char \<Rightarrow> bool" where
  "is_quote c = (c = CHR 0x27 \<or> c = CHR 0x22)"

text \<open>
  The tail \<open>(.*?)['"]?\)\<close> of the url pattern: the lazy group grows one character at a
  time (never over a newline) until an optional quote and a closing parenthesis follow.
  The result is the group and the number of characters consumed.
\<close>

fun lazy_group :: "string \<Rightarrow> (string \<times> nat) option" where
  "lazy_group [] = None"
| "lazy_group (c # cs) =
     (if is_quote c \<and> startswith cs '')'' then Some ([], 2)
      else if c = CHR '')'' then Some ([], 1)
      else if c = CHR 0x0A then None
      else (case lazy_group cs of
              None \<Rightarrow> None
            | Some (g, n) \<Rightarrow> Some (c # g, Suc n)))"

text \<open>
  \<open>url\(['"]?(.*?)['"]?\)\<close> tried at the head of a string: the opening quote is taken
  when it is there, and given back when the rest then fails.
\<close>

definition url_match :: "string \<Rightarrow> (string \<times> nat) option" where
  "url_match s =
     (if startswith s ''url('' then
        (let r = drop 4 s;
             quoted = (case r of
                         [] \<Rightarrow> None
                       | q # r' \<Rightarrow> if is_quote q then lazy_group r' else None)
         in case quoted of
              Some (g, n) \<Rightarrow> Some (g, n + 5)
            | None \<Rightarrow> (case lazy_group r of
                         None \<Rightarrow> None
                       | Some (g, n) \<Rightarrow> Some (g, n + 4)))
      else None)"

definition find_urls :: "string \<Rightarrow> string list" where
  "find_urls text = findall url_match 0 text"

text \<open>
  \<open>@font-face\s*{[^}]+}\<close> tried at the head of a string; the reported string is the
  whole match (the pattern has no group).
\<close>

definition font_face_match :: "string \<Rightarrow> (string \<times> nat) option" where
  "font_face_match s =
     (if startswith s ''@font-face'' then
        (let ws = takeWhile is_space (drop 10 s);
             r = dropWhile is_space (drop 10 s)
         in case r of
              [] \<Rightarrow> None
            | b # body \<Rightarrow>
                if b = CHR ''{'' then
                  (let inner = takeWhile (\<lambda>c. c \<noteq> CHR ''}'') body;
                       rest = dropWhile (\<lambda>c. c \<noteq> CHR ''}'') body;
                       len = 10 + length ws + 1 + length inner + 1
                   in if inner \<noteq> [] \<and> rest \<noteq> [] then Some (take len s, len) else None)
                else None)
      else None)"

definition font_face_blocks :: "string \<Rightarrow> string list" where
  "font_face_blocks text = findall font_face_match 0 text"

section \<open>Faults and the consumed capabilities\<close>

text \<open>
  A raised exception is a value: \<open>Inl e\<close>. \<open>ValueError\<close> is what
  \<open>urllib.parse.urlparse\<close> raises; \<open>FetchError\<close> stands for whatever \<open>fetch_url\<close>
  raises (transport failure, non-2xx status); \<open>NotModelled\<close> marks an input outside the
  fragment of the library model of the last section.
\<close>

datatype exn = ValueError string | FetchError string | NotModelled string

fun str_exn :: "exn \<Rightarrow> string" where
  "str_exn (ValueError m) = m"
| "str_exn (FetchError m) = m"
| "str_exn (NotModelled m) = m"

text \<open>
  A parsed document, as BeautifulSoup with \<open>html.parser\<close> exposes it: tags with a name,
  attributes and children, and text nodes.
\<close>

datatype node = Tag string "(string \<times> string) list" "node list" | NavigableString string

record parsed_url =
  scheme :: string
  netloc :: string
  path :: string
  query :: string

text \<open>
  What the source reads of a response besides its text: \<open>status_code\<close>,
  \<open>dict(headers)\<close>, \<open>str(url)\<close>, \<open>headers.get("content-type", "")\<close> and the
  bytes \<open>content\<close>.
\<close>

record response =
  resp_status :: int
  resp_headers :: "(string \<times> string) list"
  resp_url :: string
  resp_content_type :: string
  resp_content :: string

text \<open>
  The code outside the repository is a parameter: \<open>urlparse\<close> and \<open>urljoin\<close> of
  \<open>urllib.parse\<close>, the helper \<open>fetch_url\<close> seen through \<open>response.text\<close>, and
  \<open>BeautifulSoup(text, "html.parser")\<close>. \<open>response_of\<close> gives the other attributes
  of the response to a URL whose fetch succeeds.
\<close>

record env =
  urlparse :: "string \<Rightarrow> exn + parsed_url"
  urljoin :: "string \<Rightarrow> string \<Rightarrow> exn + string"
  fetch_url :: "string \<Rightarrow> exn + string"
  html_parser :: "string \<Rightarrow> node list"
  response_of :: "string \<Rightarrow> response"

section \<open>URL helpers\<close>

definition get_base_url :: "env \<Rightarrow> string \<Rightarrow> exn + string" where
  "get_base_url env url =
     (case urlparse env url of
        Inl e \<Rightarrow> Inl e
      | Inr parsed \<Rightarrow> Inr (scheme parsed @ ''://'' @ netloc parsed))"

definition is_absolute_url :: "env \<Rightarrow> string \<Rightarrow> exn + bool" where
  "is_absolute_url env url =
     (case urlparse env url of
        Inl e \<Rightarrow> Inl e
      | Inr parsed \<Rightarrow> Inr (netloc parsed \<noteq> []))"

definition normalize_url :: "env \<Rightarrow> string \<Rightarrow> string \<Rightarrow> exn + string" where
  "normalize_url env base url =
     (case is_absolute_url env url of
        Inl e \<Rightarrow> Inl e
      | Inr absolute \<Rightarrow> if absolute then Inr url else urljoin env base url)"

text \<open>A \<open>for\<close> loop whose body may raise: the first fault ends the loop.\<close>

fun for_each :: "('a \<Rightarrow> 's \<Rightarrow> exn + 's) \<Rightarrow> 'a list \<Rightarrow> 's \<Rightarrow> exn + 's" where
  "for_each body [] s = Inr s"
| "for_each body (x # xs) s =
     (case body x s of
        Inl e \<Rightarrow> Inl e
      | Inr s' \<Rightarrow> for_each body xs s')"

section \<open>parse_css_for_assets\<close>

definition font_exts :: "string list" where
  "font_exts = [''.woff'', ''.woff2'', ''.ttf'', ''.eot'', ''.otf'']"

definition image_exts :: "string list" where
  "image_exts = [''.png'', ''.jpg'', ''.jpeg'', ''.gif'', ''.svg'', ''.webp'']"

text \<open>\<open>any(ext in full_url.lower() for ext in exts)\<close>\<close>

definition any_ext_in :: "string list \<Rightarrow> string \<Rightarrow> bool" where
  "any_ext_in exts full_url = list_ex (\<lambda>ext. contains (lower full_url) ext) exts"

text \<open>The body of the first loop; the state is the pair of lists \<open>(fonts, images)\<close>.\<close>

definition classify_url ::
  "env \<Rightarrow> string \<Rightarrow> string \<Rightarrow> string list \<times> string list \<Rightarrow> exn + string list \<times> string list"
where
  "classify_url env base url acc =
     (case normalize_url env base url of
        Inl e \<Rightarrow> Inl e
      | Inr full_url \<Rightarrow>
          if any_ext_in font_exts full_url then Inr (fst acc @ [full_url], snd acc)
          else if any_ext_in image_exts full_url then Inr (fst acc, snd acc @ [full_url])
          else Inr (fst acc, snd acc @ [full_url]))"

text \<open>The body of the inner loop over one \<open>@font-face\<close> block.\<close>

definition add_font :: "env \<Rightarrow> string \<Rightarrow> string \<Rightarrow> string list \<Rightarrow> exn + string list" where
  "add_font env base url fonts =
     (case normalize_url env base url of
        Inl e \<Rightarrow> Inl e
      | Inr full_url \<Rightarrow> Inr (fonts @ [full_url]))"

record css_assets =
  css_error :: "string option"
  fonts :: "string list"
  images :: "string list"

text \<open>
  \<open>list(set(xs))\<close> keeps one copy of every element, in an order Python does not
  specify; \<open>remdups\<close> fixes one such order, and no statement below depends on it.
\<close>

definition list_of_set :: "string list \<Rightarrow> string list" where
  "list_of_set xs = remdups xs"

definition parse_css_for_assets :: "env \<Rightarrow> string \<Rightarrow> string option \<Rightarrow> exn + css_assets" where
  "parse_css_for_assets env css_url css_content =
     (case get_base_url env css_url of
        Inl e \<Rightarrow> Inl e
      | Inr base \<Rightarrow>
          (case (case css_content of
                   Some text \<Rightarrow> Inr text
                 | None \<Rightarrow> fetch_url env css_url) of
             Inl e \<Rightarrow> Inr \<lparr>css_error = Some (str_exn e), fonts = [], images = []\<rparr>
           | Inr text \<Rightarrow>
               (case for_each (classify_url env base) (find_urls text) ([], []) of
                  Inl e \<Rightarrow> Inl e
                | Inr acc \<Rightarrow>
                    (case for_each (\<lambda>block. for_each (add_font env base) (find_urls block))
                            (font_face_blocks text) (fst acc) of
                       Inl e \<Rightarrow> Inl e
                     | Inr fonts2 \<Rightarrow>
                         Inr \<lparr>css_error = None, fonts = list_of_set fonts2,
                              images = list_of_set (snd acc)\<rparr>))))"

section \<open>The parsed document\<close>

text \<open>Every tag below a node, the node itself first, in document order.\<close>

fun tags_of :: "node \<Rightarrow> node list" where
  "tags_of (NavigableString s) = []"
| "tags_of (Tag name attrs children) = Tag name attrs children # concat (map tags_of children)"

text \<open>\<open>soup.find_all()\<close>: all tags of the document; \<open>tag.find_all()\<close>: all tags below one.\<close>

definition all_tags :: "node list \<Rightarrow> node list" where
  "all_tags soup = concat (map tags_of soup)"

fun children_of :: "node \<Rightarrow> node list" where
  "children_of (NavigableString s) = []"
| "children_of (Tag name attrs children) = children"

fun tag_name :: "node \<Rightarrow> string" where
  "tag_name (NavigableString s) = []"
| "tag_name (Tag name attrs children) = name"

text \<open>\<open>tag.attrs.get(key)\<close>; \<open>key in tag.attrs\<close> is \<open>attr tag key \<noteq> None\<close>.\<close>

fun attr :: "node \<Rightarrow> string \<Rightarrow> string option" where
  "attr (NavigableString s) key = None"
| "attr (Tag name attrs children) key = map_of attrs key"

text \<open>\<open>tag.text\<close>: the text nodes below a tag, joined.\<close>

fun get_text :: "node \<Rightarrow> string" where
  "get_text (NavigableString s) = s"
| "get_text (Tag name attrs children) = concat (map get_text children)"

definition find_all :: "string \<Rightarrow> node list \<Rightarrow> node list" where
  "find_all name soup = filter (\<lambda>t. tag_name t = name) (all_tags soup)"

text \<open>
  The whitespace-separated tokens of an attribute value: BeautifulSoup stores \<open>rel\<close> as
  the list of its tokens, and \<open>find_all("link", rel=v)\<close> keeps a tag when \<open>v\<close> is one
  of them.
\<close>

fun tokens_aux :: "string \<Rightarrow> string \<Rightarrow> string list" where
  "tokens_aux cur [] = (if cur = [] then [] else [cur])"
| "tokens_aux cur (c # cs) =
     (if is_space c then (if cur = [] then tokens_aux [] cs else cur # tokens_aux [] cs)
      else tokens_aux (cur @ [c]) cs)"

definition tokens :: "string \<Rightarrow> string list" where
  "tokens s = tokens_aux [] s"

definition find_all_link_rel :: "string \<Rightarrow> node list \<Rightarrow> node list" where
  "find_all_link_rel v soup =
     filter (\<lambda>t. case attr t ''rel'' of None \<Rightarrow> False | Some r \<Rightarrow> v \<in> set (tokens r))
       (find_all ''link'' soup)"

text \<open>\<open>soup.title.text if soup.title else "No title"\<close>: the first \<open>title\<close> tag, if any.\<close>

definition title_of :: "node list \<Rightarrow> string" where
  "title_of soup =
     (case find_all ''title'' soup of
        [] \<Rightarrow> ''No title''
      | t # ts \<Rightarrow> get_text t)"

section \<open>extract_assets\<close>

text \<open>
  The dictionary \<open>assets\<close> is an association list in the order of the literal.
  \<open>assets[key].append(u)\<close> is only ever called with a key of the literal.
\<close>

type_synonym assets = "(string \<times> string list) list"

definition empty_assets :: assets where
  "empty_assets = [(''css'', []), (''javascript'', []), (''images'', []),
                   (''fonts'', []), (''videos'', []), (''other'', [])]"

definition append_asset :: "string \<Rightarrow> string \<Rightarrow> assets \<Rightarrow> assets" where
  "append_asset key u a = map (\<lambda>(k, us). if k = key then (k, us @ [u]) else (k, us)) a"

definition lookup :: "assets \<Rightarrow> string \<Rightarrow> string list" where
  "lookup a key = (case map_of a key of None \<Rightarrow> [] | Some us \<Rightarrow> us)"

text \<open>\<open>assets[key].append(normalize_url(base_url, ref))\<close>\<close>

definition add_asset :: "env \<Rightarrow> string \<Rightarrow> string \<Rightarrow> string \<Rightarrow> assets \<Rightarrow> exn + assets" where
  "add_asset env base key ref a =
     (case normalize_url env base ref of
        Inl e \<Rightarrow> Inl e
      | Inr u \<Rightarrow> Inr (append_asset key u a))"

text \<open>The body of each loop: the tag's attribute, when present, is resolved and appended.\<close>

definition add_attr :: "env \<Rightarrow> string \<Rightarrow> string \<Rightarrow> string \<Rightarrow> node \<Rightarrow> assets \<Rightarrow> exn + assets" where
  "add_attr env base key name t a =
     (case attr t name of
        None \<Rightarrow> Inr a
      | Some v \<Rightarrow> add_asset env base key v a)"

text \<open>
  One \<open>srcset\<close> candidate: \<open>src_item.strip().split(" ")[0].strip()\<close>. The test
  \<open>len(src_parts) >= 1\<close> of the source always holds.
\<close>

definition srcset_refs :: "string \<Rightarrow> string list" where
  "srcset_refs srcset =
     map (\<lambda>src_item. strip (hd (split_on CHR '' '' (strip src_item)))) (split_on CHR '','' srcset)"

definition img_body :: "env \<Rightarrow> string \<Rightarrow> node \<Rightarrow> assets \<Rightarrow> exn + assets" where
  "img_body env base img a =
     (case add_attr env base ''images'' ''src'' img a of
        Inl e \<Rightarrow> Inl e
      | Inr a1 \<Rightarrow>
          (case attr img ''srcset'' of
             None \<Rightarrow> Inr a1
           | Some srcset \<Rightarrow> for_each (add_asset env base ''images'') (srcset_refs srcset) a1))"

text \<open>\<open>soup.find_all(style=True)\<close>: every tag that carries a \<open>style\<close> attribute.\<close>

definition find_all_style :: "node list \<Rightarrow> node list" where
  "find_all_style soup = filter (\<lambda>t. attr t ''style'' \<noteq> None) (all_tags soup)"

definition style_body :: "env \<Rightarrow> string \<Rightarrow> node \<Rightarrow> assets \<Rightarrow> exn + assets" where
  "style_body env base t a =
     (case attr t ''style'' of
        None \<Rightarrow> Inr a
      | Some style \<Rightarrow> for_each (add_asset env base ''images'') (find_urls style) a)"

definition preload_body :: "env \<Rightarrow> string \<Rightarrow> node \<Rightarrow> assets \<Rightarrow> exn + assets" where
  "preload_body env base link a =
     (if attr link ''href'' \<noteq> None \<and> attr link ''as'' = Some ''font''
      then add_attr env base ''fonts'' ''href'' link a
      else Inr a)"

definition video_body :: "env \<Rightarrow> string \<Rightarrow> node \<Rightarrow> assets \<Rightarrow> exn + assets" where
  "video_body env base video a =
     for_each (add_attr env base ''videos'' ''src'') (find_all ''source'' (children_of video)) a"

text \<open>The seven loops of the source, one after the other; a fault ends the call.\<close>

definition extract_loops :: "env \<Rightarrow> string \<Rightarrow> node list \<Rightarrow> assets \<Rightarrow> exn + assets" where
  "extract_loops env base soup a0 =
     (case for_each (add_attr env base ''css'' ''href'') (find_all_link_rel ''stylesheet'' soup) a0 of
        Inl e \<Rightarrow> Inl e
      | Inr a1 \<Rightarrow>
     (case for_each (add_attr env base ''javascript'' ''src'') (find_all ''script'' soup) a1 of
        Inl e \<Rightarrow> Inl e
      | Inr a2 \<Rightarrow>
     (case for_each (img_body env base) (find_all ''img'' soup) a2 of
        Inl e \<Rightarrow> Inl e
      | Inr a3 \<Rightarrow>
     (case for_each (style_body env base) (find_all_style soup) a3 of
        Inl e \<Rightarrow> Inl e
      | Inr a4 \<Rightarrow>
     (case for_each (preload_body env base) (find_all_link_rel ''preload'' soup) a4 of
        Inl e \<Rightarrow> Inl e
      | Inr a5 \<Rightarrow>
     (case for_each (video_body env base) (find_all ''video'' soup) a5 of
        Inl e \<Rightarrow> Inl e
      | Inr a6 \<Rightarrow>
          for_each (add_attr env base ''other'' ''src'') (find_all ''iframe'' soup) a6))))))"

definition extract_assets :: "env \<Rightarrow> string \<Rightarrow> string \<Rightarrow> exn + assets" where
  "extract_assets env url html_content =
     (case get_base_url env url of
        Inl e \<Rightarrow> Inl e
      | Inr base \<Rightarrow> extract_loops env base (html_parser env html_content) empty_assets)"

section \<open>create_site_map\<close>

text \<open>
  A sitemap entry is \<open>{url, title, links}\<close> for a page that was fetched and
  \<open>{url, error}\<close> for one that failed; a link is \<open>{url, text}\<close>.
\<close>

datatype entry = Page string string "(string \<times> string) list" | Failed string string

fun entry_url :: "entry \<Rightarrow> string" where
  "entry_url (Page u t ls) = u"
| "entry_url (Failed u e) = u"

fun entry_links :: "entry \<Rightarrow> (string \<times> string) list" where
  "entry_links (Page u t ls) = ls"
| "entry_links (Failed u e) = []"

text \<open>\<open>page_info["links"].append(link)\<close>\<close>

fun add_link :: "string \<times> string \<Rightarrow> entry \<Rightarrow> entry" where
  "add_link l (Page u t ls) = Page u t (ls @ [l])"
| "add_link l (Failed u e) = Failed u e"

text \<open>
  The two variables the closure \<open>crawl\<close> shares, \<open>visited\<close> and \<open>sitemap\<close>, and a
  log of the calls of \<open>fetch_url\<close>, which the source does not keep: it is there to state
  how often a URL is fetched.
\<close>

record crawl_state =
  visited :: "string set"
  sitemap :: "entry list"
  fetched :: "string list"

definition skip_href :: "string \<Rightarrow> bool" where
  "skip_href href =
     (href = [] \<or> startswith href ''#'' \<or> startswith href ''javascript:''
      \<or> startswith href ''mailto:'')"

text \<open>\<open>link.text.strip() or "No text"\<close>\<close>

definition link_text :: "node \<Rightarrow> string" where
  "link_text link = (if strip (get_text link) = [] then ''No text'' else strip (get_text link))"

text \<open>\<open>soup.find_all("a", href=True)\<close>\<close>

definition find_all_a_href :: "node list \<Rightarrow> node list" where
  "find_all_a_href soup = filter (\<lambda>t. attr t ''href'' \<noteq> None) (find_all ''a'' soup)"

definition href_of :: "node \<Rightarrow> string" where
  "href_of link = (case attr link ''href'' of None \<Rightarrow> [] | Some h \<Rightarrow> h)"

text \<open>
  \<open>crawl\<close> and its loop over the links of a page. The first argument after the
  parameters is fuel: one unit per nested call of \<open>crawl\<close>, \<open>None\<close> when it runs out.
  \<open>page_info\<close> is the dictionary at position \<open>idx\<close> of \<open>sitemap\<close>. A fault raised in
  the loop is caught by the \<open>except\<close> of the call of \<open>crawl\<close> that runs the loop, which
  appends \<open>{url, error}\<close> for \<open>current_url\<close>.
\<close>

fun crawl ::
  "env \<Rightarrow> string \<Rightarrow> int \<Rightarrow> nat \<Rightarrow> string \<Rightarrow> int \<Rightarrow> crawl_state \<Rightarrow> crawl_state option"
and crawl_links ::
  "env \<Rightarrow> string \<Rightarrow> int \<Rightarrow> nat \<Rightarrow> string \<Rightarrow> int \<Rightarrow> nat \<Rightarrow> node list \<Rightarrow> crawl_state
     \<Rightarrow> crawl_state option"
where
  "crawl env base max_depth 0 current_url depth st = None"
| "crawl env base max_depth (Suc n) current_url depth st =
     (if depth > max_depth \<or> current_url \<in> visited st then Some st
      else
        (let st1 = st\<lparr>visited := insert current_url (visited st),
                       fetched := fetched st @ [current_url]\<rparr>
         in case fetch_url env current_url of
              Inl e \<Rightarrow> Some (st1\<lparr>sitemap := sitemap st1 @ [Failed current_url (str_exn e)]\<rparr>)
            | Inr html_content \<Rightarrow>
                (let soup = html_parser env html_content;
                     idx = length (sitemap st1);
                     st2 = st1\<lparr>sitemap := sitemap st1 @ [Page current_url (title_of soup) []]\<rparr>
                 in if depth < max_depth
                    then crawl_links env base max_depth n current_url depth idx
                           (find_all_a_href soup) st2
                    else Some st2)))"
| "crawl_links env base max_depth n current_url depth idx [] st = Some st"
| "crawl_links env base max_depth n current_url depth idx (link # links) st =
     (if skip_href (href_of link)
      then crawl_links env base max_depth n current_url depth idx links st
      else
        (case normalize_url env base (href_of link) of
           Inl e \<Rightarrow> Some (st\<lparr>sitemap := sitemap st @ [Failed current_url (str_exn e)]\<rparr>)
         | Inr full_url \<Rightarrow>
             (case get_base_url env full_url of
                Inl e \<Rightarrow> Some (st\<lparr>sitemap := sitemap st @ [Failed current_url (str_exn e)]\<rparr>)
              | Inr b \<Rightarrow>
                  if b = base then
                    (case crawl env base max_depth n full_url (depth + 1)
                            (st\<lparr>sitemap := (sitemap st)
                                   [idx := add_link (full_url, link_text link) (sitemap st ! idx)]\<rparr>) of
                       None \<Rightarrow> None
                     | Some st' \<Rightarrow> crawl_links env base max_depth n current_url depth idx links st')
                  else crawl_links env base max_depth n current_url depth idx links st)))"

record site_map =
  base_url :: string
  pages :: nat
  sitemap_of :: "entry list"

definition init_state :: crawl_state where
  "init_state = \<lparr>visited = {}, sitemap = [], fetched = []\<rparr>"

text \<open>
  \<open>create_site_map\<close> with \<open>n\<close> units of fuel: \<open>None\<close> when the fuel runs out,
  \<open>Some (Inl e)\<close> when a fault reaches the caller, \<open>Some (Inr r)\<close> for the returned
  dictionary.
\<close>

definition create_site_map :: "env \<Rightarrow> nat \<Rightarrow> string \<Rightarrow> int \<Rightarrow> (exn + site_map) option" where
  "create_site_map env n url max_depth =
     (case get_base_url env url of
        Inl e \<Rightarrow> Some (Inl e)
      | Inr base \<Rightarrow>
          (case crawl env base max_depth n url 1 init_state of
             None \<Rightarrow> None
           | Some st \<Rightarrow>
               Some (Inr \<lparr>base_url = base, pages = length (sitemap st),
                          sitemap_of = sitemap st\<rparr>)))"

section \<open>analyze_page_structure: the metadata dictionary\<close>

text \<open>The body of the loop over the \<open>meta\<close> tags: \<open>name\<close> is tested first.\<close>

definition meta_step :: "node \<Rightarrow> (string \<rightharpoonup> string) \<Rightarrow> (string \<rightharpoonup> string)" where
  "meta_step meta metadata =
     (case (attr meta ''name'', attr meta ''content'') of
        (Some n, Some c) \<Rightarrow> metadata(n \<mapsto> c)
      | _ \<Rightarrow>
          (case (attr meta ''property'', attr meta ''content'') of
             (Some p, Some c) \<Rightarrow> metadata(p \<mapsto> c)
           | _ \<Rightarrow> metadata))"

fun meta_loop :: "node list \<Rightarrow> (string \<rightharpoonup> string) \<Rightarrow> (string \<rightharpoonup> string)" where
  "meta_loop [] metadata = metadata"
| "meta_loop (meta # metas) metadata = meta_loop metas (meta_step meta metadata)"

text \<open>The \<open>metadata\<close> field of the dictionary that \<open>analyze_page_structure\<close> returns.\<close>

definition analyze_page_structure_metadata :: "env \<Rightarrow> string \<Rightarrow> (string \<rightharpoonup> string)" where
  "analyze_page_structure_metadata env html_content =
     meta_loop (find_all ''meta'' (html_parser env html_content)) Map.empty"

section \<open>analyze_page_structure\<close>

record layout =
  has_header :: bool
  has_footer :: bool
  has_navigation :: bool
  has_sidebar :: bool
  has_main_content :: bool

record page_report =
  rep_title :: string
  rep_metadata :: "string \<rightharpoonup> string"
  rep_semantic_structure :: "(string \<times> nat) list"
  rep_headings :: "(string \<times> nat) list"
  rep_layout_analysis :: layout
  rep_total_elements :: nat
  rep_total_links :: nat
  rep_total_images :: nat
  rep_total_forms :: nat

definition semantic_types :: "string list" where
  "semantic_types = [''header'', ''footer'', ''nav'', ''main'', ''aside'', ''section'', ''article'']"

text \<open>\<open>soup.find_all(["article", "div", "section"])\<close>\<close>

definition find_all_candidates :: "node list \<Rightarrow> node list" where
  "find_all_candidates soup =
     filter (\<lambda>t. tag_name t \<in> {''article'', ''div'', ''section''}) (all_tags soup)"

text \<open>
  The whole report. The source has no handler here and calls nothing that raises on a
  tree. Of the main content only its presence is reported: \<open>main\<close> if there is one,
  else the largest candidate if there is any.
\<close>

definition analyze_page_structure :: "env \<Rightarrow> string \<Rightarrow> exn + page_report" where
  "analyze_page_structure env html_content =
     (let soup = html_parser env html_content
      in Inr \<lparr>rep_title = title_of soup,
               rep_metadata = analyze_page_structure_metadata env html_content,
               rep_semantic_structure =
                 map (\<lambda>t. (t, length (find_all t soup)))
                   (filter (\<lambda>t. find_all t soup \<noteq> []) semantic_types),
               rep_headings =
                 map (\<lambda>level. (''h'' @ str_nat level, length (find_all (''h'' @ str_nat level) soup)))
                   [1 ..< 7],
               rep_layout_analysis =
                 \<lparr>has_header = (find_all ''header'' soup \<noteq> []),
                  has_footer = (find_all ''footer'' soup \<noteq> []),
                  has_navigation = (find_all ''nav'' soup \<noteq> []),
                  has_sidebar = (find_all ''aside'' soup \<noteq> []),
                  has_main_content =
                    (find_all ''main'' soup \<noteq> [] \<or> find_all_candidates soup \<noteq> [])\<rparr>,
               rep_total_elements = length (all_tags soup),
               rep_total_links = length (find_all ''a'' soup),
               rep_total_images = length (find_all ''img'' soup),
               rep_total_forms = length (find_all ''form'' soup)\<rparr>)"

section \<open>fetch_page\<close>

text \<open>
  The dictionary that \<open>fetch_page\<close> returns; the key \<open>error\<close> is there only in the
  payload of a failure. The whole body of the function is inside \<open>try\<close>.
\<close>

record page_payload =
  pp_error :: "string option"
  pp_content :: "string option"
  pp_status_code :: "int option"
  pp_headers :: "(string \<times> string) list option"
  pp_url :: string

definition fetch_page :: "env \<Rightarrow> string \<Rightarrow> exn + page_payload" where
  "fetch_page env url =
     (case fetch_url env url of
        Inl e \<Rightarrow>
          Inr \<lparr>pp_error = Some (str_exn e), pp_content = None, pp_status_code = None,
                pp_headers = None, pp_url = url\<rparr>
      | Inr html_content \<Rightarrow>
          Inr \<lparr>pp_error = None, pp_content = Some html_content,
                pp_status_code = Some (resp_status (response_of env url)),
                pp_headers = Some (resp_headers (response_of env url)),
                pp_url = resp_url (response_of env url)\<rparr>)"

section \<open>Paths\<close>

text \<open>
  A path as \<open>pathlib\<close> keeps it on a POSIX system: a root (\<open>/\<close>, \<open>//\<close> or none) and
  the components, among which no empty one and no \<open>.\<close>.
\<close>

record py_path =
  path_root :: string
  path_parts :: "string list"

definition components :: "string \<Rightarrow> string list" where
  "components s = filter (\<lambda>c. c \<noteq> [] \<and> c \<noteq> ''.'') (split_on CHR ''/'' s)"

text \<open>\<open>Path(s)\<close>\<close>

definition Path :: "string \<Rightarrow> py_path" where
  "Path s =
     \<lparr>path_root = (if startswith s ''//'' \<and> \<not> startswith s ''///'' then ''//''
                   else if startswith s ''/'' then ''/'' else []),
      path_parts = components s\<rparr>"

text \<open>\<open>p / s\<close>: a string with a root replaces the path.\<close>

definition joinpath :: "py_path \<Rightarrow> string \<Rightarrow> py_path" where
  "joinpath p s =
     (if startswith s ''/'' then Path s
      else \<lparr>path_root = path_root p, path_parts = path_parts p @ components s\<rparr>)"

definition path_name :: "py_path \<Rightarrow> string" where
  "path_name p = (if path_parts p = [] then [] else last (path_parts p))"

text \<open>
  \<open>name.rfind('.')\<close> and the test \<open>0 < i < len(name) - 1\<close> of \<open>suffix\<close> and
  \<open>stem\<close>: the position of the last dot, when it is neither first nor last.
\<close>

definition split_dot :: "string \<Rightarrow> nat option" where
  "split_dot name =
     (let i = length name - 1 - length (takeWhile (\<lambda>c. c \<noteq> CHR ''.'') (rev name))
      in if CHR ''.'' \<in> set name \<and> 0 < i \<and> i + 1 < length name then Some i else None)"

definition path_suffix :: "py_path \<Rightarrow> string" where
  "path_suffix p = (case split_dot (path_name p) of None \<Rightarrow> [] | Some i \<Rightarrow> drop i (path_name p))"

definition path_stem :: "py_path \<Rightarrow> string" where
  "path_stem p =
     (case split_dot (path_name p) of None \<Rightarrow> path_name p | Some i \<Rightarrow> take i (path_name p))"

text \<open>\<open>str(p)\<close>\<close>

definition path_str :: "py_path \<Rightarrow> string" where
  "path_str p =
     (if path_root p = [] \<and> path_parts p = [] then ''.''
      else path_root p @ join_with ''/'' (path_parts p))"

section \<open>download_asset\<close>

text \<open>
  The file system as \<open>download_asset\<close> meets it. \<open>mkdir\<close> is
  \<open>Path.mkdir(parents=True, exist_ok=True)\<close> and \<open>write_bytes\<close> is
  \<open>Path.write_bytes\<close>: \<open>Some e\<close> when the call raises \<open>e\<close>. \<open>files\<close> lists the
  paths that exist when the loop over the file names runs; there are finitely many.
  \<open>stat_fault\<close> is the fault, if any, that \<open>Path.exists\<close> raises on a path.
\<close>

record filesystem =
  mkdir :: "py_path \<Rightarrow> exn option"
  stat_fault :: "py_path \<Rightarrow> exn option"
  files :: "py_path list"
  write_bytes :: "py_path \<Rightarrow> string \<Rightarrow> exn option"

record download_result =
  dl_success :: bool
  dl_url :: string
  dl_saved_to :: "string option"
  dl_content_type :: "string option"
  dl_size :: "nat option"
  dl_error :: "string option"

text \<open>The file name that the URL gives.\<close>

definition asset_filename :: "parsed_url \<Rightarrow> string" where
  "asset_filename parsed_url =
     (if path parsed_url = [] \<or> endswith (path parsed_url) ''/'' then ''index.html''
      else
        (let name = path_name (Path (path parsed_url));
             filename = (if name = [] then ''unknown_file'' else name)
         in if query parsed_url \<noteq> []
            then filename @ ''_''
                 @ map (\<lambda>c. if is_word c \<or> c = CHR ''-'' \<or> c = CHR ''.'' then c else CHR ''_'')
                     (query parsed_url)
            else filename))"

text \<open>The directory that the content type gives.\<close>

definition asset_subdir :: "string \<Rightarrow> string" where
  "asset_subdir content_type =
     (if contains content_type ''text/html'' then ''html''
      else if contains content_type ''text/css'' then ''css''
      else if contains content_type ''javascript'' then ''js''
      else if contains content_type ''image/'' then ''images''
      else if contains content_type ''font/'' \<or> contains content_type ''application/font''
        then ''fonts''
      else if contains content_type ''video/'' then ''videos''
      else ''other'')"

text \<open>
  The loop \<open>while file_path.exists()\<close>, with fuel: one unit for every test of a path.
  \<open>stem\<close> and \<open>suffix\<close> are those of \<open>original_file_path\<close>.
\<close>

fun free_path ::
  "nat \<Rightarrow> filesystem \<Rightarrow> py_path \<Rightarrow> string \<Rightarrow> string \<Rightarrow> py_path \<Rightarrow> nat \<Rightarrow> (exn + py_path) option"
where
  "free_path 0 fs subdir_path stem suffix file_path counter = None"
| "free_path (Suc n) fs subdir_path stem suffix file_path counter =
     (case stat_fault fs file_path of
        Some e \<Rightarrow> Some (Inl e)
      | None \<Rightarrow>
          if file_path \<in> set (files fs)
          then free_path n fs subdir_path stem suffix
                 (joinpath subdir_path (stem @ ''_'' @ str_nat counter @ suffix)) (counter + 1)
          else Some (Inr file_path))"

text \<open>The body of the \<open>try\<close>: \<open>Some (Inl e)\<close> when it raises \<open>e\<close>.\<close>

definition download_body ::
  "filesystem \<Rightarrow> env \<Rightarrow> nat \<Rightarrow> string \<Rightarrow> string \<Rightarrow> (exn + download_result) option"
where
  "download_body fs env n url output_dir =
     (let output_path = Path output_dir
      in case mkdir fs output_path of
           Some e \<Rightarrow> Some (Inl e)
         | None \<Rightarrow>
        (case urlparse env url of
           Inl e \<Rightarrow> Some (Inl e)
         | Inr parsed_url \<Rightarrow>
        (let filename = asset_filename parsed_url
         in case fetch_url env url of
              Inl e \<Rightarrow> Some (Inl e)
            | Inr text \<Rightarrow>
        (let content_type = hd (split_on CHR '';'' (resp_content_type (response_of env url)));
             subdir_path = joinpath output_path (asset_subdir content_type)
         in case mkdir fs subdir_path of
              Some e \<Rightarrow> Some (Inl e)
            | None \<Rightarrow>
        (let file_path = joinpath subdir_path filename
         in case free_path n fs subdir_path (path_stem file_path) (path_suffix file_path)
                   file_path 1 of
              None \<Rightarrow> None
            | Some (Inl e) \<Rightarrow> Some (Inl e)
            | Some (Inr free) \<Rightarrow>
        (case write_bytes fs free (resp_content (response_of env url)) of
           Some e \<Rightarrow> Some (Inl e)
         | None \<Rightarrow>
             Some (Inr \<lparr>dl_success = True, dl_url = url, dl_saved_to = Some (path_str free),
                        dl_content_type = Some content_type,
                        dl_size = Some (length (resp_content (response_of env url))),
                        dl_error = None\<rparr>)))))))"

text \<open>
  \<open>download_asset\<close> with \<open>n\<close> units of fuel for the loop: the \<open>except\<close> turns every
  fault of the body into \<open>{success: False, url, error}\<close>.
\<close>

definition download_asset ::
  "filesystem \<Rightarrow> env \<Rightarrow> nat \<Rightarrow> string \<Rightarrow> string \<Rightarrow> (exn + download_result) option"
where
  "download_asset fs env n url output_dir =
     (case download_body fs env n url output_dir of
        None \<Rightarrow> None
      | Some (Inl e) \<Rightarrow>
          Some (Inr \<lparr>dl_success = False, dl_url = url, dl_saved_to = None,
                     dl_content_type = None, dl_size = None, dl_error = Some (str_exn e)\<rparr>)
      | Some (Inr r) \<Rightarrow> Some (Inr r))"

section \<open>Statements the claims are measured against\<close>

text \<open>
  The filename extension of a URL as the specification speaks of it: the last path
  segment from its last dot on, empty when that segment has no dot.
\<close>

definition filename_ext :: "string \<Rightarrow> string" where
  "filename_ext u =
     (let seg = last (split_on CHR ''/'' u)
      in if CHR ''.'' \<in> set seg then CHR ''.'' # last (split_on CHR ''.'' seg) else [])"

text \<open>
  The references that the rules of \<open>extract_assets\<close> discover, per category, in
  document order and with repetitions.
\<close>

definition attr_refs :: "string \<Rightarrow> node \<Rightarrow> string list" where
  "attr_refs name t = (case attr t name of None \<Rightarrow> [] | Some v \<Rightarrow> [v])"

definition img_refs :: "node \<Rightarrow> string list" where
  "img_refs img =
     attr_refs ''src'' img @ (case attr img ''srcset'' of None \<Rightarrow> [] | Some v \<Rightarrow> srcset_refs v)"

definition style_refs :: "node \<Rightarrow> string list" where
  "style_refs t = (case attr t ''style'' of None \<Rightarrow> [] | Some v \<Rightarrow> find_urls v)"

definition preload_refs :: "node \<Rightarrow> string list" where
  "preload_refs link = (if attr link ''as'' = Some ''font'' then attr_refs ''href'' link else [])"

definition video_refs :: "node \<Rightarrow> string list" where
  "video_refs video = concat (map (attr_refs ''src'') (find_all ''source'' (children_of video)))"

definition discovered :: "node list \<Rightarrow> string \<Rightarrow> string list" where
  "discovered soup key =
     (if key = ''css'' then concat (map (attr_refs ''href'') (find_all_link_rel ''stylesheet'' soup))
      else if key = ''javascript'' then concat (map (attr_refs ''src'') (find_all ''script'' soup))
      else if key = ''images'' then
        concat (map img_refs (find_all ''img'' soup)) @ concat (map style_refs (find_all_style soup))
      else if key = ''fonts'' then concat (map preload_refs (find_all_link_rel ''preload'' soup))
      else if key = ''videos'' then concat (map video_refs (find_all ''video'' soup))
      else if key = ''other'' then concat (map (attr_refs ''src'') (find_all ''iframe'' soup))
      else [])"

text \<open>A dictionary of assets after the URLs \<open>rs\<close> were appended under one key.\<close>

definition append_all :: "string \<Rightarrow> string list \<Rightarrow> assets \<Rightarrow> assets" where
  "append_all key rs a = map (\<lambda>(k, us). if k = key then (k, us @ rs) else (k, us)) a"

text \<open>
  The links of a page that pass the filters of the loop in \<open>crawl\<close>, resolved, with
  their texts. The visited set is no argument of it.
\<close>

fun collect_links :: "env \<Rightarrow> string \<Rightarrow> node list \<Rightarrow> exn + (string \<times> string) list" where
  "collect_links env base [] = Inr []"
| "collect_links env base (link # links) =
     (if skip_href (href_of link) then collect_links env base links
      else
        (case normalize_url env base (href_of link) of
           Inl e \<Rightarrow> Inl e
         | Inr full_url \<Rightarrow>
             (case get_base_url env full_url of
                Inl e \<Rightarrow> Inl e
              | Inr b \<Rightarrow>
                  (case collect_links env base links of
                     Inl e \<Rightarrow> Inl e
                   | Inr ls \<Rightarrow> Inr (if b = base then (full_url, link_text link) # ls else ls)))))"

fun add_links :: "(string \<times> string) list \<Rightarrow> entry \<Rightarrow> entry" where
  "add_links [] e = e"
| "add_links (l # ls) e = add_links ls (add_link l e)"

text \<open>Every fetched URL is in the visited set, and none was fetched twice.\<close>

definition fetch_inv :: "crawl_state \<Rightarrow> bool" where
  "fetch_inv st = (set (fetched st) \<subseteq> visited st \<and> distinct (fetched st))"

text \<open>Every URL whose fetch fails and that was fetched has its \<open>{url, error}\<close> entry.\<close>

definition fault_inv :: "env \<Rightarrow> crawl_state \<Rightarrow> bool" where
  "fault_inv env st =
     (\<forall>u e. u \<in> set (fetched st) \<longrightarrow> fetch_url env u = Inl e \<longrightarrow>
            Failed u (str_exn e) \<in> set (sitemap st))"

text \<open>No \<open>{url, error}\<close> entry of the first state is missing from the second.\<close>

definition keeps_failed :: "crawl_state \<Rightarrow> crawl_state \<Rightarrow> bool" where
  "keeps_failed st st' = (\<forall>u m. Failed u m \<in> set (sitemap st) \<longrightarrow> Failed u m \<in> set (sitemap st'))"

section \<open>A model of the library at concrete inputs\<close>

text \<open>
  \<open>urllib.parse.urlparse\<close> of CPython 3.11, for the four components the source reads.
  Leading control characters and spaces are stripped, tab, carriage return and newline
  removed; a scheme is a letter followed by scheme characters up to the first colon; a
  network location follows \<open>//\<close> up to the first of \<open>/ ? #\<close>; a network location
  with one square bracket and not the other raises \<open>ValueError\<close>; the fragment starts
  at the first \<open>#\<close>, the query at the first \<open>?\<close> before it, and the path loses its
  parameters. The validation of a bracketed host is left out: no input below has a pair
  of brackets.
\<close>

definition is_alpha :: "char \<Rightarrow> bool" where
  "is_alpha c = ((CHR ''a'' \<le> c \<and> c \<le> CHR ''z'') \<or> (CHR ''A'' \<le> c \<and> c \<le> CHR ''Z''))"

definition is_digit :: "char \<Rightarrow> bool" where
  "is_digit c = (CHR ''0'' \<le> c \<and> c \<le> CHR ''9'')"

definition scheme_char :: "char \<Rightarrow> bool" where
  "scheme_char c = (is_alpha c \<or> is_digit c \<or> c = CHR ''+'' \<or> c = CHR ''-'' \<or> c = CHR ''.'')"

definition uses_params :: "string list" where
  "uses_params = [[], ''ftp'', ''hdl'', ''prospero'', ''http'', ''imap'', ''https'', ''shttp'',
                  ''rtsp'', ''rtsps'', ''rtspu'', ''sip'', ''sips'', ''mms'', ''sftp'', ''tel'']"

text \<open>The path without the parameters that follow the first \<open>;\<close> of its last segment.\<close>

definition split_params :: "string \<Rightarrow> string" where
  "split_params p =
     (let k = length p - length (takeWhile (\<lambda>c. c \<noteq> CHR ''/'') (rev p))
      in take k p @ takeWhile (\<lambda>c. c \<noteq> CHR '';'') (drop k p))"

definition py_urlparse :: "string \<Rightarrow> exn + parsed_url" where
  "py_urlparse url0 =
     (let url1 = dropWhile (\<lambda>c. (of_char c :: nat) \<le> 32) url0;
          url2 = filter (\<lambda>c. c \<noteq> CHR 0x09 \<and> c \<noteq> CHR 0x0D \<and> c \<noteq> CHR 0x0A) url1;
          pre = takeWhile (\<lambda>c. c \<noteq> CHR '':'') url2;
          has_scheme = (pre \<noteq> [] \<and> length pre < length url2 \<and> is_alpha (hd pre)
                        \<and> list_all scheme_char pre);
          sch = (if has_scheme then lower pre else []);
          url3 = (if has_scheme then drop (length pre + 1) url2 else url2);
          has_netloc = (take 2 url3 = ''//'');
          in_netloc = (\<lambda>c. c \<noteq> CHR ''/'' \<and> c \<noteq> CHR ''?'' \<and> c \<noteq> CHR ''#'');
          nl = (if has_netloc then takeWhile in_netloc (drop 2 url3) else []);
          url4 = (if has_netloc then dropWhile in_netloc (drop 2 url3) else url3);
          url5 = takeWhile (\<lambda>c. c \<noteq> CHR ''#'') url4;
          url6 = takeWhile (\<lambda>c. c \<noteq> CHR ''?'') url5;
          qry = drop (length url6 + 1) url5
      in if (CHR ''['' \<in> set nl \<and> CHR '']'' \<notin> set nl)
            \<or> (CHR '']'' \<in> set nl \<and> CHR ''['' \<notin> set nl)
         then Inl (ValueError ''Invalid IPv6 URL'')
         else Inr \<lparr>scheme = sch, netloc = nl,
                   path = (if sch \<in> set uses_params then split_params url6 else url6),
                   query = qry\<rparr>)"

text \<open>
  \<open>urllib.parse.urljoin\<close> on the fragment the examples need: a base
  \<open>http(s)://host\<close> with no path, and a reference that is a path of letters, digits,
  \<open>. - _ /\<close> with no empty, \<open>.\<close> or \<open>..\<close> segment. There the reference is put
  behind the base, with one slash between them. Outside the fragment the model answers
  \<open>NotModelled\<close>.
\<close>

definition host_char :: "char \<Rightarrow> bool" where
  "host_char c = (is_alpha c \<or> is_digit c \<or> c = CHR ''.'' \<or> c = CHR ''-'')"

definition plain_base :: "string \<Rightarrow> bool" where
  "plain_base base =
     ((startswith base ''http://'' \<and> drop 7 base \<noteq> [] \<and> list_all host_char (drop 7 base))
      \<or> (startswith base ''https://'' \<and> drop 8 base \<noteq> [] \<and> list_all host_char (drop 8 base)))"

definition plain_path :: "string \<Rightarrow> bool" where
  "plain_path p =
     (list_all (\<lambda>c. host_char c \<or> c = CHR ''_'' \<or> c = CHR ''/'') p
      \<and> \<not> contains p ''//''
      \<and> list_all (\<lambda>seg. seg \<noteq> ''.'' \<and> seg \<noteq> ''..'') (split_on CHR ''/'' p))"

definition py_urljoin :: "string \<Rightarrow> string \<Rightarrow> exn + string" where
  "py_urljoin base url =
     (if base = [] then Inr url
      else if url = [] then Inr base
      else if plain_base base \<and> plain_path url
        then Inr (base @ (if hd url = CHR ''/'' then url else CHR ''/'' # url))
        else Inl (NotModelled ''urljoin''))"

text \<open>
  A world for the examples: the library model, a table of the pages that can be fetched
  (any other URL fails with 404), and a table from the markup of these pages to the tree
  that \<open>html.parser\<close> builds for it (the empty tree for the empty text). Every page is
  served with status 200 as \<open>text/html\<close>, without a redirect.
\<close>

definition py_env :: "(string \<times> string) list \<Rightarrow> (string \<times> node list) list \<Rightarrow> env" where
  "py_env site trees =
     \<lparr>urlparse = py_urlparse,
      urljoin = py_urljoin,
      fetch_url = (\<lambda>u. case map_of site u of
                          None \<Rightarrow> Inl (FetchError ''404 Not Found'')
                        | Some text \<Rightarrow> Inr text),
      html_parser = (\<lambda>text. case map_of trees text of None \<Rightarrow> [] | Some t \<Rightarrow> t),
      response_of = (\<lambda>u. \<lparr>resp_status = 200,
                            resp_headers = [(''content-type'', ''text/html'')],
                            resp_url = u,
                            resp_content_type = ''text/html'',
                            resp_content = (case map_of site u of None \<Rightarrow> [] | Some text \<Rightarrow> text)\<rparr>)\<rparr>"

text \<open>A home page with three links to its own site and one to another site.\<close>

definition home_html :: string where
  "home_html = ''<title>Home</title><a href=https://example.com/a>A</a>''
     @ ''<a href=https://example.com/b>B</a><a href=https://example.com/c>C</a>''
     @ ''<a href=https://other.org/x>X</a>''"

definition home_soup :: "node list" where
  "home_soup =
     [Tag ''title'' [] [NavigableString ''Home''],
      Tag ''a'' [(''href'', ''https://example.com/a'')] [NavigableString ''A''],
      Tag ''a'' [(''href'', ''https://example.com/b'')] [NavigableString ''B''],
      Tag ''a'' [(''href'', ''https://example.com/c'')] [NavigableString ''C''],
      Tag ''a'' [(''href'', ''https://other.org/x'')] [NavigableString ''X'']]"

definition home_env :: env where
  "home_env = py_env [(''https://example.com/'', home_html)] [(home_html, home_soup)]"

text \<open>Two pages that link to each other and to themselves.\<close>

definition loop_html :: string where
  "loop_html = ''<a href=/a>A</a><a href=/a>A again</a><a href=/>Home</a>''"

definition loop_soup :: "node list" where
  "loop_soup =
     [Tag ''a'' [(''href'', ''/a'')] [NavigableString ''A''],
      Tag ''a'' [(''href'', ''/a'')] [NavigableString ''A again''],
      Tag ''a'' [(''href'', ''/'')] [NavigableString ''Home'']]"

definition loop_a_html :: string where
  "loop_a_html = ''<a href=/>Home</a><a href=/a>Self</a>''"

definition loop_a_soup :: "node list" where
  "loop_a_soup =
     [Tag ''a'' [(''href'', ''/'')] [NavigableString ''Home''],
      Tag ''a'' [(''href'', ''/a'')] [NavigableString ''Self'']]"

definition loop_env :: env where
  "loop_env =
     py_env [(''https://example.com/'', loop_html), (''https://example.com/a'', loop_a_html)]
            [(loop_html, loop_soup), (loop_a_html, loop_a_soup)]"

text \<open>A page whose only link has an unmatched bracket where the host should be.\<close>

definition bracket_html :: string where
  "bracket_html = ''<a href=//[>x</a>''"

definition bracket_soup :: "node list" where
  "bracket_soup = [Tag ''a'' [(''href'', ''//['')] [NavigableString ''x'']]"

definition bracket_env :: env where
  "bracket_env = py_env [(''https://example.com/'', bracket_html)] [(bracket_html, bracket_soup)]"

text \<open>A page with the same script twice, and a \<open>meta\<close> tag with both a name and a property.\<close>

definition scripts_html :: string where
  "scripts_html = ''<script src=app.js></script><script src=app.js></script>''"

definition scripts_soup :: "node list" where
  "scripts_soup = [Tag ''script'' [(''src'', ''app.js'')] [], Tag ''script'' [(''src'', ''app.js'')] []]"

definition meta_html :: string where
  "meta_html = ''<meta name=description property=og:description content=Hi>''"

definition meta_soup :: "node list" where
  "meta_soup =
     [Tag ''meta'' [(''name'', ''description''), (''property'', ''og:description''),
                    (''content'', ''Hi'')] []]"

definition page_env :: env where
  "page_env = py_env [] [(scripts_html, scripts_soup), (meta_html, meta_soup)]"

text \<open>A page that links to a second page, whose only link has the unmatched bracket.\<close>

definition link_html :: string where
  "link_html = ''<a href=/a>A</a>''"

definition link_soup :: "node list" where
  "link_soup = [Tag ''a'' [(''href'', ''/a'')] [NavigableString ''A'']]"

definition nested_env :: env where
  "nested_env =
     py_env [(''https://example.com/'', link_html), (''https://example.com/a'', bracket_html)]
            [(link_html, link_soup), (bracket_html, bracket_soup)]"

text \<open>A page with one image, whose source has the unmatched bracket.\<close>

definition broken_img_html :: string where
  "broken_img_html = ''<img src=//[>''"

definition broken_img_soup :: "node list" where
  "broken_img_soup = [Tag ''img'' [(''src'', ''//['')] []]"

definition broken_img_env :: env where
  "broken_img_env = py_env [] [(broken_img_html, broken_img_soup)]"

text \<open>
  An image on the site, served as \<open>image/png\<close>, and a disk on which every call
  succeeds and two files of its name are there already.
\<close>

definition logo_env :: env where
  "logo_env =
     (py_env [(''https://example.com/img/logo.png'', ''PNG'')] [])
       \<lparr>response_of := (\<lambda>u. \<lparr>resp_status = 200,
                               resp_headers = [(''content-type'', ''image/png'')],
                               resp_url = u,
                               resp_content_type = ''image/png'',
                               resp_content = ''PNG''\<rparr>)\<rparr>"

definition disk :: filesystem where
  "disk =
     \<lparr>mkdir = (\<lambda>p. None),
      stat_fault = (\<lambda>p. None),
      files = [Path ''out/images/logo.png'', Path ''out/images/logo_1.png''],
      write_bytes = (\<lambda>p b. None)\<rparr>"

section \<open>The metadata of a page\<close>

lemma meta_loop_append: "meta_loop (xs @ ys) md = meta_loop ys (meta_loop xs md)"
  by (induction xs arbitrary: md) simp_all

lemma meta_step_other:
  "attr m ''name'' \<noteq> Some n \<Longrightarrow> attr m ''property'' \<noteq> Some n \<Longrightarrow> meta_step m md n = md n"
  by (auto simp: meta_step_def split: option.splits)

lemma meta_loop_keep:
  "list_all (\<lambda>m. attr m ''name'' \<noteq> Some n \<and> attr m ''property'' \<noteq> Some n) later
   \<Longrightarrow> meta_loop later md n = md n"
  by (induction later arbitrary: md) (simp_all add: meta_step_other)

text \<open>
  C3, as amended. A \<open>meta\<close> tag with a \<open>name\<close> and a \<open>content\<close> attribute records its
  content under the value of \<open>name\<close>, whether or not it also has a \<open>property\<close>
  attribute: the source tests \<open>name\<close> first and reaches \<open>property\<close> only in the
  \<open>elif\<close>. The entry is still there at the end of the loop when no later tag writes the
  same key.
\<close>

theorem meta_name_wins:
  assumes "attr meta ''name'' = Some n" and "attr meta ''content'' = Some c"
    and "list_all (\<lambda>m. attr m ''name'' \<noteq> Some n \<and> attr m ''property'' \<noteq> Some n) later"
  shows "meta_step meta md = md(n \<mapsto> c) \<and> meta_loop (earlier @ meta # later) md n = Some c"
proof -
  have step: "meta_step meta md' = md'(n \<mapsto> c)" for md'
    using assms(1,2) by (simp add: meta_step_def)
  have "meta_loop (earlier @ meta # later) md n = meta_step meta (meta_loop earlier md) n"
    using assms(3) by (simp add: meta_loop_append meta_loop_keep)
  then show ?thesis using step by simp
qed

theorem meta_name_wins_witness:
  "analyze_page_structure_metadata page_env meta_html ''description'' = Some ''Hi''"
proof -
  have a: "attr (hd meta_soup) ''name'' = Some ''description''" by (simp add: meta_soup_def)
  have b: "attr (hd meta_soup) ''content'' = Some ''Hi''" by (simp add: meta_soup_def)
  have c: "list_all (\<lambda>m. attr m ''name'' \<noteq> Some ''description''
                          \<and> attr m ''property'' \<noteq> Some ''description'') []"
    by simp
  have s: "find_all ''meta'' (html_parser page_env meta_html) = [] @ hd meta_soup # []"
    by code_simp
  from meta_name_wins [OF a b c, of Map.empty "[]"] show ?thesis
    unfolding analyze_page_structure_metadata_def s by simp
qed

text \<open>
  C3 as stated fails: for the single tag
  \<open><meta name=description property=og:description content=Hi>\<close> nothing is recorded
  under \<open>og:description\<close>; the content is under \<open>description\<close>.
\<close>

theorem meta_property_counterexample:
  "attr (hd meta_soup) ''name'' = Some ''description''
   \<and> attr (hd meta_soup) ''property'' = Some ''og:description''
   \<and> attr (hd meta_soup) ''content'' = Some ''Hi''
   \<and> find_all ''meta'' (html_parser page_env meta_html) = [hd meta_soup]
   \<and> analyze_page_structure_metadata page_env meta_html ''og:description'' = None
   \<and> analyze_page_structure_metadata page_env meta_html ''description'' = Some ''Hi''"
  by code_simp

section \<open>A crawl of depth one\<close>

text \<open>
  C1, as amended. With \<open>max_depth = 1\<close> a seed page that can be fetched gives exactly one
  entry, the seed, and its \<open>links\<close> array is empty whatever links the page has: the
  loop over the links runs only under \<open>depth < max_depth\<close>, and the seed has depth 1.
\<close>

theorem depth_one_no_links:
  assumes "get_base_url env url = Inr base" and "fetch_url env url = Inr html" and "0 < n"
  shows "create_site_map env n url 1 =
           Some (Inr \<lparr>base_url = base, pages = 1,
                      sitemap_of = [Page url (title_of (html_parser env html)) []]\<rparr>)"
proof -
  obtain m where n: "n = Suc m" using assms(3) by (cases n) auto
  show ?thesis
    using assms(1,2) by (simp add: create_site_map_def n init_state_def Let_def)
qed

theorem depth_one_no_links_witness:
  "create_site_map home_env 1 ''https://example.com/'' 1 =
     Some (Inr \<lparr>base_url = ''https://example.com'', pages = 1,
                sitemap_of = [Page ''https://example.com/'' ''Home'' []]\<rparr>)"
proof -
  have a: "get_base_url home_env ''https://example.com/'' = Inr ''https://example.com''"
    by code_simp
  have b: "fetch_url home_env ''https://example.com/'' = Inr home_html"
    by code_simp
  have t: "title_of (html_parser home_env home_html) = ''Home''" by code_simp
  from depth_one_no_links [OF a b, of 1] show ?thesis unfolding t by simp
qed

text \<open>
  C1 as stated fails: the home page has four links, three of them to its own origin, and
  with \<open>max_depth = 1\<close> the one entry of the sitemap has no link at all, not three.
\<close>

theorem depth_one_links_counterexample:
  "length (filter (\<lambda>l. get_base_url home_env (href_of l) = Inr ''https://example.com'')
             (find_all_a_href (html_parser home_env home_html))) = 3
   \<and> length (find_all_a_href (html_parser home_env home_html)) = 4
   \<and> fetch_url home_env ''https://example.com/'' = Inr home_html
   \<and> map_option (map_sum id (\<lambda>r. map (\<lambda>e. length (entry_links e)) (sitemap_of r)))
        (create_site_map home_env 1 ''https://example.com/'' 1) = Some (Inr [0])"
  by code_simp

section \<open>The stylesheet scanner\<close>

lemma for_each_append:
  "for_each body (xs @ ys) s =
     (case for_each body xs s of Inl e \<Rightarrow> Inl e | Inr s' \<Rightarrow> for_each body ys s')"
  by (induction xs arbitrary: s) (simp_all split: sum.splits)

lemma for_each_single: "for_each body [x] s = body x s"
  by (simp split: sum.splits)

lemma for_each_concat:
  assumes "\<And>x s. body x s = for_each g (f x) s"
  shows "for_each body xs s = for_each g (concat (map f xs)) s"
  by (induction xs arbitrary: s) (simp_all add: assms for_each_append split: sum.splits)

lemma classify_loop:
  "for_each (classify_url env base) urls acc = Inr acc' \<Longrightarrow>
   \<exists>rs. map (normalize_url env base) urls = map Inr rs
      \<and> fst acc' = fst acc @ filter (any_ext_in font_exts) rs
      \<and> snd acc' = snd acc @ filter (\<lambda>u. \<not> any_ext_in font_exts u) rs"
proof (induction urls arbitrary: acc)
  case Nil
  then show ?case by simp
next
  case (Cons u urls)
  from Cons.prems obtain acc1 where
    c: "classify_url env base u acc = Inr acc1" and
    r: "for_each (classify_url env base) urls acc1 = Inr acc'"
    by (auto split: sum.splits)
  from c obtain full where n: "normalize_url env base u = Inr full"
    by (auto simp: classify_url_def split: sum.splits)
  from Cons.IH [OF r] obtain rs where
    rs: "map (normalize_url env base) urls = map Inr rs"
        "fst acc' = fst acc1 @ filter (any_ext_in font_exts) rs"
        "snd acc' = snd acc1 @ filter (\<lambda>u. \<not> any_ext_in font_exts u) rs"
    by blast
  have a1: "acc1 = (if any_ext_in font_exts full then (fst acc @ [full], snd acc)
                    else (fst acc, snd acc @ [full]))"
    using c n by (auto simp: classify_url_def split: if_splits)
  show ?case
    by (rule exI [of _ "full # rs"]) (use n rs a1 in auto)
qed

lemma add_font_loop:
  "for_each (add_font env base) urls fs = Inr fs' \<Longrightarrow>
   \<exists>rs. map (normalize_url env base) urls = map Inr rs \<and> fs' = fs @ rs"
proof (induction urls arbitrary: fs)
  case Nil
  then show ?case by simp
next
  case (Cons u urls)
  from Cons.prems obtain fs1 where
    c: "add_font env base u fs = Inr fs1" and
    r0: "for_each (add_font env base) urls fs1 = Inr fs'"
    by (auto split: sum.splits)
  from c obtain full where n: "normalize_url env base u = Inr full" and f: "fs1 = fs @ [full]"
    by (auto simp: add_font_def split: sum.splits)
  have r: "for_each (add_font env base) urls (fs @ [full]) = Inr fs'" using r0 f by simp
  from Cons.IH [OF r] obtain rs where
    "map (normalize_url env base) urls = map Inr rs" "fs' = (fs @ [full]) @ rs" by blast
  then show ?case using n by (intro exI [of _ "full # rs"]) simp
qed

lemma resolved_member:
  "map (normalize_url env base) urls = map Inr rs \<Longrightarrow> u \<in> set urls \<Longrightarrow>
   normalize_url env base u = Inr full \<Longrightarrow> full \<in> set rs"
proof -
  assume m: "map (normalize_url env base) urls = map Inr rs" and u: "u \<in> set urls"
    and n: "normalize_url env base u = Inr full"
  have "Inr full \<in> set (map (normalize_url env base) urls)" using u n by force
  then have "(Inr full :: exn + string) \<in> set (map Inr rs)" using m by simp
  then show ?thesis by auto
qed

text \<open>
  C5, as amended. The first loop of \<open>parse_css_for_assets\<close> puts a resolved URL into
  \<open>fonts\<close> exactly when its lower-cased text contains one of \<open>.woff\<close>, \<open>.woff2\<close>,
  \<open>.ttf\<close>, \<open>.eot\<close>, \<open>.otf\<close> anywhere (the source tests \<open>ext in full_url.lower()\<close>,
  not the filename extension), and into \<open>images\<close> otherwise; both lists keep the order
  of the references, and no URL of this loop is in both.
\<close>

theorem classify_by_substring:
  assumes "for_each (classify_url env base) urls ([], []) = Inr (fs, imgs)"
  shows "\<exists>rs. map (normalize_url env base) urls = map Inr rs
           \<and> fs = filter (any_ext_in font_exts) rs
           \<and> imgs = filter (\<lambda>u. \<not> any_ext_in font_exts u) rs
           \<and> set fs \<inter> set imgs = {}"
proof -
  from classify_loop [OF assms] obtain rs where
    "map (normalize_url env base) urls = map Inr rs"
    "fs = filter (any_ext_in font_exts) rs"
    "imgs = filter (\<lambda>u. \<not> any_ext_in font_exts u) rs" by auto
  then show ?thesis by (intro exI [of _ rs]) auto
qed

theorem classify_by_substring_witness:
  "\<exists>rs. map (normalize_url page_env ''https://example.com'') [''a.woff2'', ''b.png'', ''c.dat''] = map Inr rs
      \<and> [''https://example.com/a.woff2''] = filter (any_ext_in font_exts) rs
      \<and> [''https://example.com/b.png'', ''https://example.com/c.dat'']
          = filter (\<lambda>u. \<not> any_ext_in font_exts u) rs
      \<and> set [''https://example.com/a.woff2'']
          \<inter> set [''https://example.com/b.png'', ''https://example.com/c.dat''] = {}"
proof -
  have h: "for_each (classify_url page_env ''https://example.com'') [''a.woff2'', ''b.png'', ''c.dat''] ([], [])
           = Inr ([''https://example.com/a.woff2''],
                  [''https://example.com/b.png'', ''https://example.com/c.dat''])"
    by code_simp
  from classify_by_substring [OF h] show ?thesis .
qed

text \<open>
  C5 as stated fails: the reference \<open>icon.woff.png\<close> has the filename extension
  \<open>.png\<close>, which is no font extension, and the first loop puts it into \<open>fonts\<close> and
  not into \<open>images\<close>.
\<close>

theorem classify_extension_counterexample:
  "find_urls ''a{background:url(icon.woff.png)}'' = [''icon.woff.png'']
   \<and> for_each (classify_url page_env ''https://example.com'')
        (find_urls ''a{background:url(icon.woff.png)}'') ([], [])
      = Inr ([''https://example.com/icon.woff.png''], [])
   \<and> filename_ext ''https://example.com/icon.woff.png'' = ''.png''
   \<and> ''.png'' \<notin> set font_exts"
  by code_simp

text \<open>
  C4, as amended. A reference that the url pattern finds both in the whole stylesheet and
  inside an \<open>@font-face\<close> block is returned in both \<open>fonts\<close> and \<open>images\<close> when its
  resolved URL contains none of the font substrings; with one of them in the URL (in the
  host of the stylesheet, say) the first loop has put it into \<open>fonts\<close> only.
\<close>

theorem font_face_url_in_both:
  assumes "parse_css_for_assets env css_url (Some text) = Inr r"
    and "get_base_url env css_url = Inr base"
    and "block \<in> set (font_face_blocks text)" and "u \<in> set (find_urls block)"
    and "u \<in> set (find_urls text)"
    and "normalize_url env base u = Inr full"
    and "\<not> any_ext_in font_exts full"
  shows "full \<in> set (fonts r) \<and> full \<in> set (images r)"
proof -
  from assms(1,2) obtain acc fonts2 where
    l1: "for_each (classify_url env base) (find_urls text) ([], []) = Inr acc" and
    l2: "for_each (\<lambda>block. for_each (add_font env base) (find_urls block))
            (font_face_blocks text) (fst acc) = Inr fonts2" and
    r: "r = \<lparr>css_error = None, fonts = list_of_set fonts2, images = list_of_set (snd acc)\<rparr>"
    by (auto simp: parse_css_for_assets_def split: sum.splits)
  from classify_loop [OF l1] obtain rs where
    rs: "map (normalize_url env base) (find_urls text) = map Inr rs"
        "snd acc = filter (\<lambda>u. \<not> any_ext_in font_exts u) rs" by auto
  have "full \<in> set rs" using resolved_member [OF rs(1) assms(5,6)] .
  then have img: "full \<in> set (snd acc)" using rs(2) assms(7) by simp
  have "for_each (add_font env base) (concat (map find_urls (font_face_blocks text))) (fst acc)
          = Inr fonts2"
    using l2 for_each_concat [of "\<lambda>block. for_each (add_font env base) (find_urls block)"
                                  "add_font env base" find_urls] by simp
  from add_font_loop [OF this] obtain rs2 where
    rs2: "map (normalize_url env base) (concat (map find_urls (font_face_blocks text))) = map Inr rs2"
         "fonts2 = fst acc @ rs2" by auto
  have "u \<in> set (concat (map find_urls (font_face_blocks text)))" using assms(3,4) by auto
  from resolved_member [OF rs2(1) this assms(6)] have "full \<in> set fonts2" using rs2(2) by simp
  then show ?thesis using img r by (simp add: list_of_set_def)
qed

theorem font_face_url_in_both_witness:
  "''https://example.com/x.png'' \<in> set (fonts \<lparr>css_error = None, fonts = [''https://example.com/x.png''], images = [''https://example.com/x.png'']\<rparr>)
   \<and> ''https://example.com/x.png'' \<in> set (images \<lparr>css_error = None, fonts = [''https://example.com/x.png''], images = [''https://example.com/x.png'']\<rparr>)"
proof -
  have a: "parse_css_for_assets page_env ''https://example.com/style.css''
             (Some ''@font-face{src:url(x.png)}'')
           = Inr \<lparr>css_error = None, fonts = [''https://example.com/x.png''],
                  images = [''https://example.com/x.png'']\<rparr>" by code_simp
  have b: "get_base_url page_env ''https://example.com/style.css'' = Inr ''https://example.com''"
    by code_simp
  have c: "''@font-face{src:url(x.png)}'' \<in> set (font_face_blocks ''@font-face{src:url(x.png)}'')"
    by code_simp
  have d: "''x.png'' \<in> set (find_urls ''@font-face{src:url(x.png)}'')" by code_simp
  have e: "normalize_url page_env ''https://example.com'' ''x.png'' = Inr ''https://example.com/x.png''"
    by code_simp
  have f: "\<not> any_ext_in font_exts ''https://example.com/x.png''" by code_simp
  from font_face_url_in_both [OF a b c d d e f] show ?thesis .
qed

text \<open>
  C4 as stated fails on the very text of the claim: for the stylesheet
  \<open>https://cdn.woff.example.com/site.css\<close> with the text
  \<open>@font-face{src:url(x.png)}\<close> the resolved \<open>x.png\<close> is in \<open>fonts\<close> and not in
  \<open>images\<close>.
\<close>

theorem font_face_url_counterexample:
  "parse_css_for_assets page_env ''https://cdn.woff.example.com/site.css''
     (Some ''@font-face{src:url(x.png)}'')
   = Inr \<lparr>css_error = None, fonts = [''https://cdn.woff.example.com/x.png''], images = []\<rparr>
   \<and> font_face_blocks ''@font-face{src:url(x.png)}'' = [''@font-face{src:url(x.png)}'']
   \<and> find_urls ''@font-face{src:url(x.png)}'' = [''x.png'']
   \<and> normalize_url page_env ''https://cdn.woff.example.com'' ''x.png''
       = Inr ''https://cdn.woff.example.com/x.png''
   \<and> filename_ext ''https://cdn.woff.example.com/x.png'' = ''.png''"
  by code_simp


section \<open>The asset classifier\<close>

lemma append_all_Nil: "append_all key [] a = a"
  by (induction a) (auto simp: append_all_def)

lemma append_all_Cons: "append_all key rs (append_asset key u a) = append_all key (u # rs) a"
  by (induction a) (auto simp: append_all_def append_asset_def)

lemma add_asset_loop:
  "for_each (add_asset env base key) refs a = Inr a' \<Longrightarrow>
   \<exists>rs. map (normalize_url env base) refs = map Inr rs \<and> a' = append_all key rs a"
proof (induction refs arbitrary: a)
  case Nil
  then show ?case by (simp add: append_all_Nil)
next
  case (Cons u refs)
  from Cons.prems obtain a1 where
    c: "add_asset env base key u a = Inr a1" and
    r: "for_each (add_asset env base key) refs a1 = Inr a'"
    by (auto split: sum.splits)
  from c obtain full where n: "normalize_url env base u = Inr full"
    and a1: "a1 = append_asset key full a"
    by (auto simp: add_asset_def split: sum.splits)
  from Cons.IH [OF r] obtain rs where
    "map (normalize_url env base) refs = map Inr rs" "a' = append_all key rs a1" by blast
  then show ?case using n a1 by (intro exI [of _ "full # rs"]) (simp add: append_all_Cons)
qed

lemma add_attr_refs:
  "add_attr env base key name t a = for_each (add_asset env base key) (attr_refs name t) a"
  by (simp add: add_attr_def attr_refs_def split: option.splits sum.splits)

lemma img_body_refs:
  "img_body env base img a = for_each (add_asset env base ''images'') (img_refs img) a"
  by (simp add: img_body_def img_refs_def add_attr_refs for_each_append
           split: option.splits sum.splits)

lemma style_body_refs:
  "style_body env base t a = for_each (add_asset env base ''images'') (style_refs t) a"
  by (simp add: style_body_def style_refs_def split: option.splits)

lemma preload_body_refs:
  "preload_body env base link a = for_each (add_asset env base ''fonts'') (preload_refs link) a"
  by (auto simp: preload_body_def preload_refs_def add_attr_refs attr_refs_def)

lemma video_body_refs:
  "video_body env base video a = for_each (add_asset env base ''videos'') (video_refs video) a"
  unfolding video_body_def video_refs_def
  by (rule for_each_concat) (rule add_attr_refs)

lemma loop_refs:
  assumes "\<And>x s. body x s = for_each (add_asset env base key) (f x) s"
    and "for_each body xs a = Inr a'"
  shows "\<exists>rs. map (normalize_url env base) (concat (map f xs)) = map Inr rs
             \<and> a' = append_all key rs a"
  using add_asset_loop [of env base key "concat (map f xs)" a a']
        for_each_concat [of body "add_asset env base key" f xs a, OF assms(1)] assms(2)
  by simp

lemma extract_loops_result:
  assumes "extract_loops env base soup empty_assets = Inr a"
  shows "\<exists>c j i f v oth.
           map (normalize_url env base) (discovered soup ''css'') = map Inr c
         \<and> map (normalize_url env base) (discovered soup ''javascript'') = map Inr j
         \<and> map (normalize_url env base) (discovered soup ''images'') = map Inr i
         \<and> map (normalize_url env base) (discovered soup ''fonts'') = map Inr f
         \<and> map (normalize_url env base) (discovered soup ''videos'') = map Inr v
         \<and> map (normalize_url env base) (discovered soup ''other'') = map Inr oth
         \<and> a = [(''css'', c), (''javascript'', j), (''images'', i),
                 (''fonts'', f), (''videos'', v), (''other'', oth)]"
proof -
  from assms obtain a1 a2 a3 a4 a5 a6 where
    l1: "for_each (add_attr env base ''css'' ''href'') (find_all_link_rel ''stylesheet'' soup) empty_assets = Inr a1" and
    l2: "for_each (add_attr env base ''javascript'' ''src'') (find_all ''script'' soup) a1 = Inr a2" and
    l3: "for_each (img_body env base) (find_all ''img'' soup) a2 = Inr a3" and
    l4: "for_each (style_body env base) (find_all_style soup) a3 = Inr a4" and
    l5: "for_each (preload_body env base) (find_all_link_rel ''preload'' soup) a4 = Inr a5" and
    l6: "for_each (video_body env base) (find_all ''video'' soup) a5 = Inr a6" and
    l7: "for_each (add_attr env base ''other'' ''src'') (find_all ''iframe'' soup) a6 = Inr a"
    unfolding extract_loops_def by (auto split: sum.splits)
  from loop_refs [OF add_attr_refs l1] obtain r1 where
    r1: "map (normalize_url env base) (concat (map (attr_refs ''href'') (find_all_link_rel ''stylesheet'' soup))) = map Inr r1"
        "a1 = append_all ''css'' r1 empty_assets" by blast
  from loop_refs [OF add_attr_refs l2] obtain r2 where
    r2: "map (normalize_url env base) (concat (map (attr_refs ''src'') (find_all ''script'' soup))) = map Inr r2"
        "a2 = append_all ''javascript'' r2 a1" by blast
  from loop_refs [OF img_body_refs l3] obtain r3 where
    r3: "map (normalize_url env base) (concat (map img_refs (find_all ''img'' soup))) = map Inr r3"
        "a3 = append_all ''images'' r3 a2" by blast
  from loop_refs [OF style_body_refs l4] obtain r4 where
    r4: "map (normalize_url env base) (concat (map style_refs (find_all_style soup))) = map Inr r4"
        "a4 = append_all ''images'' r4 a3" by blast
  from loop_refs [OF preload_body_refs l5] obtain r5 where
    r5: "map (normalize_url env base) (concat (map preload_refs (find_all_link_rel ''preload'' soup))) = map Inr r5"
        "a5 = append_all ''fonts'' r5 a4" by blast
  from loop_refs [OF video_body_refs l6] obtain r6 where
    r6: "map (normalize_url env base) (concat (map video_refs (find_all ''video'' soup))) = map Inr r6"
        "a6 = append_all ''videos'' r6 a5" by blast
  from loop_refs [OF add_attr_refs l7] obtain r7 where
    r7: "map (normalize_url env base) (concat (map (attr_refs ''src'') (find_all ''iframe'' soup))) = map Inr r7"
        "a = append_all ''other'' r7 a6" by blast
  have a: "a = [(''css'', r1), (''javascript'', r2), (''images'', r3 @ r4),
                (''fonts'', r5), (''videos'', r6), (''other'', r7)]"
    unfolding r7(2) r6(2) r5(2) r4(2) r3(2) r2(2) r1(2)
    by (simp add: append_all_def empty_assets_def)
  show ?thesis
    apply (rule exI [of _ r1], rule exI [of _ r2], rule exI [of _ "r3 @ r4"])
    apply (rule exI [of _ r5], rule exI [of _ r6], rule exI [of _ r7])
    using r1(1) r2(1) r3(1) r4(1) r5(1) r6(1) r7(1) a
    by (simp add: discovered_def)
qed

lemma discovered_other_keys:
  "key \<notin> {''css'', ''javascript'', ''images'', ''fonts'', ''videos'', ''other''}
   \<Longrightarrow> discovered soup key = []"
  by (simp add: discovered_def)


text \<open>
  C6. The \<open>fonts\<close> and \<open>images\<close> lists that \<open>parse_css_for_assets\<close> returns have no
  duplicate, whatever the input; and for every category the list that \<open>extract_assets\<close>
  returns is, element by element, the resolution of the references discovered in the
  markup: same order, same multiplicity, nothing removed.
\<close>

theorem dedup_asymmetry:
  "(parse_css_for_assets env css_url content = Inr r \<longrightarrow> distinct (fonts r) \<and> distinct (images r))
   \<and> (extract_assets env url html = Inr a \<longrightarrow> get_base_url env url = Inr base \<longrightarrow>
        (\<forall>key. map (normalize_url env base) (discovered (html_parser env html) key)
                 = map Inr (lookup a key)))"
proof (intro conjI impI allI)
  assume "parse_css_for_assets env css_url content = Inr r"
  then have "(\<exists>e. r = \<lparr>css_error = Some e, fonts = [], images = []\<rparr>)
             \<or> (\<exists>xs ys. r = \<lparr>css_error = None, fonts = list_of_set xs, images = list_of_set ys\<rparr>)"
    by (auto simp: parse_css_for_assets_def split: sum.splits option.splits)
  then show "distinct (fonts r)" and "distinct (images r)"
    by (auto simp: list_of_set_def)
next
  fix key
  assume ex: "extract_assets env url html = Inr a" and b: "get_base_url env url = Inr base"
  then have "extract_loops env base (html_parser env html) empty_assets = Inr a"
    by (simp add: extract_assets_def)
  from extract_loops_result [OF this] obtain c j i f v oth where
    r: "map (normalize_url env base) (discovered (html_parser env html) ''css'') = map Inr c"
       "map (normalize_url env base) (discovered (html_parser env html) ''javascript'') = map Inr j"
       "map (normalize_url env base) (discovered (html_parser env html) ''images'') = map Inr i"
       "map (normalize_url env base) (discovered (html_parser env html) ''fonts'') = map Inr f"
       "map (normalize_url env base) (discovered (html_parser env html) ''videos'') = map Inr v"
       "map (normalize_url env base) (discovered (html_parser env html) ''other'') = map Inr oth"
    and a: "a = [(''css'', c), (''javascript'', j), (''images'', i),
                 (''fonts'', f), (''videos'', v), (''other'', oth)]"
    by blast
  show "map (normalize_url env base) (discovered (html_parser env html) key) = map Inr (lookup a key)"
  proof (cases "key \<in> {''css'', ''javascript'', ''images'', ''fonts'', ''videos'', ''other''}")
    case True
    then show ?thesis using r unfolding a by (auto simp: lookup_def)
  next
    case False
    then have "lookup a key = []" unfolding a by (simp add: lookup_def)
    then show ?thesis using discovered_other_keys [OF False] by simp
  qed
qed

theorem dedup_asymmetry_witness:
  "distinct (fonts \<lparr>css_error = None, fonts = [''https://example.com/a.woff''], images = []\<rparr>)
   \<and> parse_css_for_assets page_env ''https://example.com/s.css''
        (Some ''a{src:url(a.woff)} b{src:url(a.woff)}'')
       = Inr \<lparr>css_error = None, fonts = [''https://example.com/a.woff''], images = []\<rparr>
   \<and> discovered (html_parser page_env scripts_html) ''javascript'' = [''app.js'', ''app.js'']
   \<and> lookup [(''css'', []), (''javascript'', [''https://example.com/app.js'', ''https://example.com/app.js'']),
              (''images'', []), (''fonts'', []), (''videos'', []), (''other'', [])] ''javascript''
       = [''https://example.com/app.js'', ''https://example.com/app.js'']
   \<and> map (normalize_url page_env ''https://example.com'')
          (discovered (html_parser page_env scripts_html) ''javascript'')
       = map Inr [''https://example.com/app.js'', ''https://example.com/app.js'']"
proof -
  let ?r = "\<lparr>css_error = None, fonts = [''https://example.com/a.woff''], images = []\<rparr>"
  let ?a = "[(''css'', []), (''javascript'', [''https://example.com/app.js'', ''https://example.com/app.js'']),
             (''images'', []), (''fonts'', []), (''videos'', []), (''other'', [])]"
  have p: "parse_css_for_assets page_env ''https://example.com/s.css''
             (Some ''a{src:url(a.woff)} b{src:url(a.woff)}'') = Inr ?r"
    by code_simp
  have e: "extract_assets page_env ''https://example.com/'' scripts_html = Inr ?a"
    by code_simp
  have b: "get_base_url page_env ''https://example.com/'' = Inr ''https://example.com''"
    by code_simp
  have d: "discovered (html_parser page_env scripts_html) ''javascript'' = [''app.js'', ''app.js'']"
    by code_simp
  have l: "lookup ?a ''javascript'' = [''https://example.com/app.js'', ''https://example.com/app.js'']"
    by code_simp
  from dedup_asymmetry [of page_env "''https://example.com/s.css''"
         "Some ''a{src:url(a.woff)} b{src:url(a.woff)}''" ?r "''https://example.com/''" scripts_html ?a
         "''https://example.com''"]
  have "distinct (fonts ?r)"
    and "\<forall>key. map (normalize_url page_env ''https://example.com'')
                  (discovered (html_parser page_env scripts_html) key) = map Inr (lookup ?a key)"
    using p e b by blast+
  then show ?thesis using p d l by metis
qed

text \<open>
  C9. The dictionary that \<open>extract_assets\<close> returns has exactly the six keys \<open>css\<close>,
  \<open>javascript\<close>, \<open>images\<close>, \<open>fonts\<close>, \<open>videos\<close>, \<open>other\<close>; and for markup in
  which no rule discovers a reference, the call returns these six keys with every list
  empty.
\<close>

theorem six_keys:
  "(extract_assets env url html = Inr a \<longrightarrow>
      map fst a = [''css'', ''javascript'', ''images'', ''fonts'', ''videos'', ''other''])
   \<and> (get_base_url env url = Inr base \<longrightarrow>
        (\<forall>key. discovered (html_parser env html) key = []) \<longrightarrow>
        extract_assets env url html = Inr empty_assets)"
proof (intro conjI impI)
  assume ex: "extract_assets env url html = Inr a"
  then obtain base' where "get_base_url env url = Inr base'"
    and "extract_loops env base' (html_parser env html) empty_assets = Inr a"
    by (auto simp: extract_assets_def split: sum.splits)
  from extract_loops_result [OF this(2)]
  show "map fst a = [''css'', ''javascript'', ''images'', ''fonts'', ''videos'', ''other'']"
    by auto
next
  let ?soup = "html_parser env html"
  assume b: "get_base_url env url = Inr base" and none: "\<forall>key. discovered ?soup key = []"
  have d: "concat (map (attr_refs ''href'') (find_all_link_rel ''stylesheet'' ?soup)) = []"
          "concat (map (attr_refs ''src'') (find_all ''script'' ?soup)) = []"
          "concat (map img_refs (find_all ''img'' ?soup)) = []"
          "concat (map style_refs (find_all_style ?soup)) = []"
          "concat (map preload_refs (find_all_link_rel ''preload'' ?soup)) = []"
          "concat (map video_refs (find_all ''video'' ?soup)) = []"
          "concat (map (attr_refs ''src'') (find_all ''iframe'' ?soup)) = []"
    using none [rule_format, of "''css''"] none [rule_format, of "''javascript''"]
          none [rule_format, of "''images''"] none [rule_format, of "''fonts''"]
          none [rule_format, of "''videos''"] none [rule_format, of "''other''"]
    by (simp_all add: discovered_def)
  have e: "for_each body xs s = Inr s"
    if "\<And>x s. body x s = for_each (add_asset env base key) (f x) s" "concat (map f xs) = []"
    for body :: "node \<Rightarrow> assets \<Rightarrow> exn + assets" and xs s key f
    using for_each_concat [of body "add_asset env base key" f xs s, OF that(1)] that(2) by simp
  have "extract_loops env base ?soup empty_assets = Inr empty_assets"
    unfolding extract_loops_def
    by (simp add: e [OF add_attr_refs d(1)] e [OF add_attr_refs d(2)] e [OF img_body_refs d(3)]
          e [OF style_body_refs d(4)] e [OF preload_body_refs d(5)] e [OF video_body_refs d(6)]
          e [OF add_attr_refs d(7)])
  then show "extract_assets env url html = Inr empty_assets"
    using b by (simp add: extract_assets_def)
qed

theorem six_keys_witness:
  "map fst [(''css'', []), (''javascript'', [''https://example.com/app.js'', ''https://example.com/app.js'']),
            (''images'', []), (''fonts'', []), (''videos'', []), (''other'', [])]
     = [''css'', ''javascript'', ''images'', ''fonts'', ''videos'', ''other'']
   \<and> extract_assets page_env ''https://example.com/'' scripts_html
     = Inr [(''css'', []), (''javascript'', [''https://example.com/app.js'', ''https://example.com/app.js'']),
            (''images'', []), (''fonts'', []), (''videos'', []), (''other'', [])]
   \<and> extract_assets page_env ''https://example.com/'' [] = Inr empty_assets"
proof -
  let ?a = "[(''css'', []), (''javascript'', [''https://example.com/app.js'', ''https://example.com/app.js'']),
             (''images'', []), (''fonts'', []), (''videos'', []), (''other'', [])]"
  have e: "extract_assets page_env ''https://example.com/'' scripts_html = Inr ?a"
    by code_simp
  have b: "get_base_url page_env ''https://example.com/'' = Inr ''https://example.com''"
    by code_simp
  have p: "html_parser page_env [] = []" by code_simp
  have n: "\<forall>key. discovered (html_parser page_env []) key = []"
    unfolding p by (simp add: discovered_def find_all_def find_all_link_rel_def find_all_style_def all_tags_def)
  from six_keys [where env = page_env and url = "''https://example.com/''"
                    and html = scripts_html and a = ?a]
  have k: "map fst ?a = [''css'', ''javascript'', ''images'', ''fonts'', ''videos'', ''other'']"
    using e by blast
  from six_keys [where env = page_env and url = "''https://example.com/''"
                    and html = "[]" and base = "''https://example.com''"]
  have "extract_assets page_env ''https://example.com/'' [] = Inr empty_assets"
    using b n by blast
  then show ?thesis using k e by blast
qed


section \<open>The site traverser\<close>

lemma crawl_returns_aux:
  "(nat (max_depth - depth) < n \<longrightarrow>
      (\<exists>st'. crawl env base max_depth n current_url depth st = Some st'))"
  "(depth < max_depth \<longrightarrow> nat (max_depth - depth - 1) < n \<longrightarrow>
      (\<exists>st'. crawl_links env base max_depth n current_url depth idx links st = Some st'))"
proof (induction env base max_depth n current_url depth st
         and env base max_depth n current_url depth idx links st
       rule: crawl_crawl_links.induct)
  case (1 env base max_depth current_url depth st)
  then show ?case by simp
next
  case (2 env base max_depth n current_url depth st)
  show ?case
  proof (intro impI)
    assume f: "nat (max_depth - depth) < Suc n"
    show "\<exists>st'. crawl env base max_depth (Suc n) current_url depth st = Some st'"
    proof (cases "depth > max_depth \<or> current_url \<in> visited st")
      case True
      then show ?thesis by auto
    next
      case False
      show ?thesis
      proof (cases "fetch_url env current_url")
        case (Inl e)
        then show ?thesis using False by (simp add: Let_def)
      next
        case (Inr html)
        show ?thesis
        proof (cases "depth < max_depth")
          case True
          then have "nat (max_depth - depth - 1) < n" using f by linarith
          with "2.IH" [OF False refl Inr refl refl refl True] True
          obtain st' where "crawl_links env base max_depth n current_url depth
                 (length (sitemap (st\<lparr>visited := insert current_url (visited st),
                                       fetched := fetched st @ [current_url]\<rparr>)))
                 (find_all_a_href (html_parser env html))
                 ((st\<lparr>visited := insert current_url (visited st),
                       fetched := fetched st @ [current_url]\<rparr>)
                    \<lparr>sitemap := sitemap (st\<lparr>visited := insert current_url (visited st),
                                       fetched := fetched st @ [current_url]\<rparr>)
                        @ [Page current_url (title_of (html_parser env html)) []]\<rparr>) = Some st'"
            by blast
          then show ?thesis using False Inr True by (simp add: Let_def)
        next
          case nd: False
          then show ?thesis using False Inr by (simp add: Let_def)
        qed
      qed
    qed
  qed
next
  case (3 env base max_depth n current_url depth idx st)
  then show ?case by simp
next
  case (4 env base max_depth n current_url depth idx link links st)
  show ?case
  proof (intro impI)
    assume d: "depth < max_depth" and f: "nat (max_depth - depth - 1) < n"
    have f': "nat (max_depth - (depth + 1)) < n" using f by (simp add: algebra_simps)
    show "\<exists>st'. crawl_links env base max_depth n current_url depth idx (link # links) st = Some st'"
    proof (cases "skip_href (href_of link)")
      case True
      then show ?thesis using "4.IH"(1) [OF True] d f by simp
    next
      case False
      show ?thesis
      proof (cases "normalize_url env base (href_of link)")
        case (Inl e)
        then show ?thesis using False by simp
      next
        case (Inr full_url)
        show ?thesis
        proof (cases "get_base_url env full_url")
          case (Inl e)
          then show ?thesis using False Inr by simp
        next
          case b: (Inr b)
          show ?thesis
          proof (cases "b = base")
            case True
            let ?st1 = "st\<lparr>sitemap := (sitemap st)
                           [idx := add_link (full_url, link_text link) (sitemap st ! idx)]\<rparr>"
            from "4.IH"(2) [OF False Inr b True] f'
            obtain st1 where c: "crawl env base max_depth n full_url (depth + 1) ?st1 = Some st1"
              by blast
            from "4.IH"(3) [OF False Inr b True c] d f
            obtain st' where "crawl_links env base max_depth n current_url depth idx links st1 = Some st'"
              by blast
            then show ?thesis using False Inr b True c by simp
          next
            case nb: False
            then show ?thesis using "4.IH"(4) [OF False Inr b nb] False Inr b d f by simp
          qed
        qed
      qed
    qed
  qed
qed


lemma crawl_visited_aux:
  "(crawl env base max_depth n current_url depth st = Some st' \<longrightarrow>
      visited st \<subseteq> visited st' \<and> (fetch_inv st \<longrightarrow> fetch_inv st'))"
  "(crawl_links env base max_depth n current_url depth idx links st = Some st' \<longrightarrow>
      visited st \<subseteq> visited st' \<and> (fetch_inv st \<longrightarrow> fetch_inv st'))"
proof (induction env base max_depth n current_url depth st
         and env base max_depth n current_url depth idx links st
       arbitrary: st' and st'
       rule: crawl_crawl_links.induct)
  case (1 env base max_depth current_url depth st)
  then show ?case by simp
next
  case (2 env base max_depth n current_url depth st)
  show ?case
  proof (intro impI)
    assume c: "crawl env base max_depth (Suc n) current_url depth st = Some st'"
    show "visited st \<subseteq> visited st' \<and> (fetch_inv st \<longrightarrow> fetch_inv st')"
    proof (cases "depth > max_depth \<or> current_url \<in> visited st")
      case True
      then show ?thesis using c by auto
    next
      case False
      let ?st1 = "st\<lparr>visited := insert current_url (visited st),
                      fetched := fetched st @ [current_url]\<rparr>"
      have i1: "fetch_inv st \<Longrightarrow> fetch_inv ?st1" using False by (auto simp: fetch_inv_def)
      show ?thesis
      proof (cases "fetch_url env current_url")
        case (Inl e)
        then have "st' = ?st1\<lparr>sitemap := sitemap ?st1 @ [Failed current_url (str_exn e)]\<rparr>"
          using c False by (simp add: Let_def)
        then show ?thesis using i1 by (auto simp: fetch_inv_def)
      next
        case (Inr html)
        let ?st2 = "?st1\<lparr>sitemap := sitemap ?st1 @ [Page current_url (title_of (html_parser env html)) []]\<rparr>"
        have i2: "fetch_inv st \<Longrightarrow> fetch_inv ?st2" using i1 by (simp add: fetch_inv_def)
        show ?thesis
        proof (cases "depth < max_depth")
          case True
          then have "crawl_links env base max_depth n current_url depth (length (sitemap ?st1))
                       (find_all_a_href (html_parser env html)) ?st2 = Some st'"
            using c False Inr by (simp add: Let_def)
          with "2.IH" [OF False refl Inr refl refl refl True, of st']
          have "visited ?st2 \<subseteq> visited st'" "fetch_inv ?st2 \<longrightarrow> fetch_inv st'" by blast+
          then show ?thesis using i2 by auto
        next
          case nd: False
          then have "st' = ?st2" using c False Inr by (simp add: Let_def)
          then show ?thesis using i2 by auto
        qed
      qed
    qed
  qed
next
  case (3 env base max_depth n current_url depth idx st)
  then show ?case by simp
next
  case (4 env base max_depth n current_url depth idx link links st)
  show ?case
  proof (intro impI)
    assume c: "crawl_links env base max_depth n current_url depth idx (link # links) st = Some st'"
    show "visited st \<subseteq> visited st' \<and> (fetch_inv st \<longrightarrow> fetch_inv st')"
    proof (cases "skip_href (href_of link)")
      case True
      then show ?thesis using "4.IH"(1) [OF True, of st'] c by simp
    next
      case False
      show ?thesis
      proof (cases "normalize_url env base (href_of link)")
        case (Inl e)
        then show ?thesis using False c by (auto simp: fetch_inv_def)
      next
        case (Inr full_url)
        show ?thesis
        proof (cases "get_base_url env full_url")
          case (Inl e)
          then show ?thesis using False Inr c by (auto simp: fetch_inv_def)
        next
          case b: (Inr b)
          show ?thesis
          proof (cases "b = base")
            case True
            let ?st1 = "st\<lparr>sitemap := (sitemap st)
                           [idx := add_link (full_url, link_text link) (sitemap st ! idx)]\<rparr>"
            from c False Inr b True obtain st1 where
              c1: "crawl env base max_depth n full_url (depth + 1) ?st1 = Some st1" and
              c2: "crawl_links env base max_depth n current_url depth idx links st1 = Some st'"
              by (auto split: option.splits)
            from "4.IH"(2) [OF False Inr b True, of st1] c1
            have a: "visited ?st1 \<subseteq> visited st1" "fetch_inv ?st1 \<longrightarrow> fetch_inv st1" by blast+
            from "4.IH"(3) [OF False Inr b True c1, of st'] c2
            have b2: "visited st1 \<subseteq> visited st'" "fetch_inv st1 \<longrightarrow> fetch_inv st'" by blast+
            have "fetch_inv st \<Longrightarrow> fetch_inv ?st1" by (simp add: fetch_inv_def)
            then show ?thesis using a b2 by auto
          next
            case nb: False
            then show ?thesis using "4.IH"(4) [OF False Inr b nb, of st'] False Inr b c by simp
          qed
        qed
      qed
    qed
  qed
qed

lemma crawl_sitemap_aux:
  "(crawl env base max_depth n current_url depth st = Some st' \<longrightarrow>
      length (sitemap st) \<le> length (sitemap st')
      \<and> (\<forall>i < length (sitemap st). sitemap st' ! i = sitemap st ! i))"
  "(crawl_links env base max_depth n current_url depth idx links st = Some st' \<longrightarrow>
      length (sitemap st) \<le> length (sitemap st')
      \<and> (\<forall>i < length (sitemap st). i \<noteq> idx \<longrightarrow> sitemap st' ! i = sitemap st ! i)
      \<and> (idx < length (sitemap st) \<longrightarrow>
           (\<forall>ls. collect_links env base links = Inr ls \<longrightarrow>
                 sitemap st' ! idx = add_links ls (sitemap st ! idx))))"
proof (induction env base max_depth n current_url depth st
         and env base max_depth n current_url depth idx links st
       arbitrary: st' and st'
       rule: crawl_crawl_links.induct)
  case (1 env base max_depth current_url depth st)
  then show ?case by simp
next
  case (2 env base max_depth n current_url depth st)
  show ?case
  proof (intro impI)
    assume c: "crawl env base max_depth (Suc n) current_url depth st = Some st'"
    show "length (sitemap st) \<le> length (sitemap st')
          \<and> (\<forall>i < length (sitemap st). sitemap st' ! i = sitemap st ! i)"
    proof (cases "depth > max_depth \<or> current_url \<in> visited st")
      case True
      then show ?thesis using c by auto
    next
      case False
      let ?st1 = "st\<lparr>visited := insert current_url (visited st),
                      fetched := fetched st @ [current_url]\<rparr>"
      show ?thesis
      proof (cases "fetch_url env current_url")
        case (Inl e)
        then have "st' = ?st1\<lparr>sitemap := sitemap ?st1 @ [Failed current_url (str_exn e)]\<rparr>"
          using c False by (simp add: Let_def)
        then show ?thesis by (auto simp: nth_append)
      next
        case (Inr html)
        let ?st2 = "?st1\<lparr>sitemap := sitemap ?st1 @ [Page current_url (title_of (html_parser env html)) []]\<rparr>"
        show ?thesis
        proof (cases "depth < max_depth")
          case True
          then have "crawl_links env base max_depth n current_url depth (length (sitemap ?st1))
                       (find_all_a_href (html_parser env html)) ?st2 = Some st'"
            using c False Inr by (simp add: Let_def)
          with "2.IH" [OF False refl Inr refl refl refl True, of st']
          have "length (sitemap ?st2) \<le> length (sitemap st')"
            "\<forall>i < length (sitemap ?st2). i \<noteq> length (sitemap ?st1) \<longrightarrow> sitemap st' ! i = sitemap ?st2 ! i"
            by blast+
          then show ?thesis by (auto simp: nth_append)
        next
          case nd: False
          then have "st' = ?st2" using c False Inr by (simp add: Let_def)
          then show ?thesis by (auto simp: nth_append)
        qed
      qed
    qed
  qed
next
  case (3 env base max_depth n current_url depth idx st)
  then show ?case by simp
next
  case (4 env base max_depth n current_url depth idx link links st)
  let ?goal = "length (sitemap st) \<le> length (sitemap st')
      \<and> (\<forall>i < length (sitemap st). i \<noteq> idx \<longrightarrow> sitemap st' ! i = sitemap st ! i)
      \<and> (idx < length (sitemap st) \<longrightarrow>
           (\<forall>ls. collect_links env base (link # links) = Inr ls \<longrightarrow>
                 sitemap st' ! idx = add_links ls (sitemap st ! idx)))"
  show ?case
  proof (intro impI)
    assume c: "crawl_links env base max_depth n current_url depth idx (link # links) st = Some st'"
    show ?goal
    proof (cases "skip_href (href_of link)")
      case True
      then show ?thesis using "4.IH"(1) [OF True, of st'] c by simp
    next
      case False
      show ?thesis
      proof (cases "normalize_url env base (href_of link)")
        case (Inl e)
        then show ?thesis using False c by (auto simp: nth_append)
      next
        case (Inr full_url)
        show ?thesis
        proof (cases "get_base_url env full_url")
          case (Inl e)
          then show ?thesis using False Inr c by (auto simp: nth_append)
        next
          case b: (Inr b)
          show ?thesis
          proof (cases "b = base")
            case True
            let ?l = "(full_url, link_text link)"
            let ?st1 = "st\<lparr>sitemap := (sitemap st) [idx := add_link ?l (sitemap st ! idx)]\<rparr>"
            from c False Inr b True obtain st1 where
              c1: "crawl env base max_depth n full_url (depth + 1) ?st1 = Some st1" and
              c2: "crawl_links env base max_depth n current_url depth idx links st1 = Some st'"
              by (auto split: option.splits)
            from "4.IH"(2) [OF False Inr b True, of st1] c1
            have a: "length (sitemap st) \<le> length (sitemap st1)"
              "\<forall>i < length (sitemap st). sitemap st1 ! i = sitemap ?st1 ! i" by auto
            from "4.IH"(3) [OF False Inr b True c1, of st'] c2
            have b2: "length (sitemap st1) \<le> length (sitemap st')"
              "\<forall>i < length (sitemap st1). i \<noteq> idx \<longrightarrow> sitemap st' ! i = sitemap st1 ! i"
              "idx < length (sitemap st1) \<longrightarrow>
                 (\<forall>ls. collect_links env base links = Inr ls \<longrightarrow>
                    sitemap st' ! idx = add_links ls (sitemap st1 ! idx))" by blast+
            have g1: "length (sitemap st) \<le> length (sitemap st')" using a(1) b2(1) by simp
            have g2: "\<forall>i < length (sitemap st). i \<noteq> idx \<longrightarrow> sitemap st' ! i = sitemap st ! i"
              using a b2(2) by auto
            have g3: "sitemap st' ! idx = add_links ls (sitemap st ! idx)"
              if i: "idx < length (sitemap st)" and cl: "collect_links env base (link # links) = Inr ls" for ls
            proof -
              from cl False Inr b True obtain ls' where
                l: "collect_links env base links = Inr ls'" "ls = ?l # ls'"
                by (auto split: sum.splits)
              have "sitemap st' ! idx = add_links ls' (sitemap st1 ! idx)"
                using b2(3) i a(1) l(1) by auto
              also have "sitemap st1 ! idx = add_link ?l (sitemap st ! idx)"
                using a(2) i by simp
              finally show ?thesis using l(2) by simp
            qed
            show ?thesis using g1 g2 g3 by blast
          next
            case nb: False
            have "collect_links env base (link # links) = Inr ls \<longleftrightarrow> collect_links env base links = Inr ls" for ls
              using False Inr b nb by (auto split: sum.splits)
            then show ?thesis using "4.IH"(4) [OF False Inr b nb, of st'] False Inr b nb c by simp
          qed
        qed
      qed
    qed
  qed
qed


lemma crawl_returns:
  "nat (max_depth - depth) < n \<Longrightarrow> \<exists>st'. crawl env base max_depth n current_url depth st = Some st'"
  using crawl_returns_aux(1) by blast

lemma create_site_map_returns:
  assumes "get_base_url env url = Inr base" and "nat (max_depth - 1) < n"
  shows "\<exists>r. create_site_map env n url max_depth = Some (Inr r)"
proof -
  from crawl_returns [OF assms(2)] obtain st' where
    "crawl env base max_depth n url 1 init_state = Some st'" by blast
  then show ?thesis using assms(1) by (simp add: create_site_map_def)
qed

text \<open>
  C8. For every \<open>max_depth \<ge> 1\<close> and every world (whatever pages the fetches return,
  finitely many distinct ones or not), the crawl returns: \<open>max_depth\<close> units of fuel, one
  per nesting level, are enough for \<open>create_site_map\<close>, and for every call of \<open>crawl\<close>
  at a depth from 1 on. Such a call never takes a URL out of the visited set; it returns
  the state unchanged when the depth is beyond \<open>max_depth\<close> or the URL was visited;
  otherwise the URL was not in the set before and is in it afterwards. Every nested call
  is at \<open>depth + 1\<close> (see the definition of \<open>crawl_links\<close>).
\<close>

theorem crawl_terminates:
  assumes "1 \<le> max_depth" and "nat max_depth \<le> n"
  shows "(\<exists>r. create_site_map env n url max_depth = Some r)
       \<and> (\<forall>base u d st. 1 \<le> d \<longrightarrow>
             (\<exists>st'. crawl env base max_depth n u d st = Some st'
                  \<and> visited st \<subseteq> visited st'
                  \<and> (d \<le> max_depth \<and> u \<notin> visited st \<longrightarrow> u \<in> visited st')
                  \<and> (max_depth < d \<or> u \<in> visited st \<longrightarrow> st' = st)))"
proof (intro conjI allI impI)
  have f: "nat (max_depth - 1) < n" using assms by linarith
  show "\<exists>r. create_site_map env n url max_depth = Some r"
  proof (cases "get_base_url env url")
    case (Inl e)
    then show ?thesis by (simp add: create_site_map_def)
  next
    case (Inr base)
    from create_site_map_returns [OF Inr f] show ?thesis by blast
  qed
next
  fix base u d st
  assume d: "(1::int) \<le> d"
  then have f: "nat (max_depth - d) < n" using assms by linarith
  from crawl_returns [OF f] obtain st' where
    c: "crawl env base max_depth n u d st = Some st'" by blast
  obtain m where n: "n = Suc m" using f by (cases n) auto
  have mono: "visited st \<subseteq> visited st'" using crawl_visited_aux(1) c by blast
  have skip: "max_depth < d \<or> u \<in> visited st \<longrightarrow> st' = st"
    using c unfolding n by auto
  have fresh: "d \<le> max_depth \<and> u \<notin> visited st \<longrightarrow> u \<in> visited st'"
  proof
    assume ns: "d \<le> max_depth \<and> u \<notin> visited st"
    let ?st1 = "st\<lparr>visited := insert u (visited st), fetched := fetched st @ [u]\<rparr>"
    show "u \<in> visited st'"
    proof (cases "fetch_url env u")
      case (Inl e)
      then show ?thesis using c ns unfolding n by (auto simp: Let_def)
    next
      case (Inr html)
      let ?st2 = "?st1\<lparr>sitemap := sitemap ?st1 @ [Page u (title_of (html_parser env html)) []]\<rparr>"
      show ?thesis
      proof (cases "d < max_depth")
        case True
        then have "crawl_links env base max_depth m u d (length (sitemap ?st1))
                     (find_all_a_href (html_parser env html)) ?st2 = Some st'"
          using c ns Inr unfolding n by (simp add: Let_def)
        then have "visited ?st2 \<subseteq> visited st'" using crawl_visited_aux(2) by blast
        then show ?thesis by auto
      next
        case False
        then show ?thesis using c ns Inr unfolding n by (auto simp: Let_def)
      qed
    qed
  qed
  show "\<exists>st'. crawl env base max_depth n u d st = Some st'
           \<and> visited st \<subseteq> visited st'
           \<and> (d \<le> max_depth \<and> u \<notin> visited st \<longrightarrow> u \<in> visited st')
           \<and> (max_depth < d \<or> u \<in> visited st \<longrightarrow> st' = st)"
    using c mono skip fresh by blast
qed

theorem crawl_terminates_witness:
  "create_site_map loop_env 3 ''https://example.com/'' 3 =
     Some (Inr \<lparr>base_url = ''https://example.com'', pages = 2,
                sitemap_of =
                  [Page ''https://example.com/'' ''No title''
                     [(''https://example.com/a'', ''A''), (''https://example.com/a'', ''A again''),
                      (''https://example.com/'', ''Home'')],
                   Page ''https://example.com/a'' ''No title''
                     [(''https://example.com/'', ''Home''), (''https://example.com/a'', ''Self'')]]\<rparr>)
   \<and> (\<exists>r. create_site_map loop_env 3 ''https://example.com/'' 3 = Some r)"
proof -
  have a: "(1::int) \<le> 3" by simp
  have b: "nat 3 \<le> (3::nat)" by simp
  have e: "create_site_map loop_env 3 ''https://example.com/'' 3 =
     Some (Inr \<lparr>base_url = ''https://example.com'', pages = 2,
                sitemap_of =
                  [Page ''https://example.com/'' ''No title''
                     [(''https://example.com/a'', ''A''), (''https://example.com/a'', ''A again''),
                      (''https://example.com/'', ''Home'')],
                   Page ''https://example.com/a'' ''No title''
                     [(''https://example.com/'', ''Home''), (''https://example.com/a'', ''Self'')]]\<rparr>)"
    by code_simp
  from crawl_terminates [OF a b, of loop_env "''https://example.com/''"]
  have "\<exists>r. create_site_map loop_env 3 ''https://example.com/'' 3 = Some r" by blast
  then show ?thesis using e by blast
qed

section \<open>The loop over the file names\<close>

text \<open>
  The names \<open>stem_1\<close>, \<open>stem_2\<close>, ... that the loop of \<open>download_asset\<close>
  tries are pairwise different paths, so among any \<open>length (files fs) + 1\<close> of them
  one does not exist: the loop ends.
\<close>

declare str_nat.simps [simp del]

lemma nat_of_digits_str_nat: "nat_of_digits (str_nat n) = n"
proof (induction n rule: str_nat.induct)
  case (1 n)
  show ?case
  proof (cases "n < 10")
    case True
    then show ?thesis
      by (subst str_nat.simps) (simp add: nat_of_digits_def)
  next
    case False
    have m: "n mod 10 < 10" by simp
    have "nat_of_digits (str_nat n) = 10 * nat_of_digits (str_nat (n div 10)) + n mod 10"
      using False m by (subst str_nat.simps) (simp add: nat_of_digits_def)
    then show ?thesis using "1.IH" [OF False] by simp
  qed
qed

lemma str_nat_inj: "str_nat a = str_nat b \<Longrightarrow> a = b"
  by (metis nat_of_digits_str_nat)

lemma str_nat_digits: "c \<in> set (str_nat n) \<Longrightarrow> 48 \<le> (of_char c :: nat) \<and> (of_char c :: nat) \<le> 57"
proof (induction n rule: str_nat.induct)
  case (1 n)
  have m: "n mod 10 < 10" by simp
  show ?case
  proof (cases "n < 10")
    case True
    then show ?thesis using "1.prems" by (subst (asm) str_nat.simps) auto
  next
    case False
    then have "c \<in> set (str_nat (n div 10)) \<or> c = char_of (48 + n mod 10)"
      using "1.prems" by (subst (asm) str_nat.simps) auto
    then show ?thesis using "1.IH" [OF False] m by auto
  qed
qed

lemma str_nat_no_slash: "CHR ''/'' \<notin> set (str_nat n)"
  using str_nat_digits [of "CHR ''/''" n] by auto

lemma split_on_nonempty: "split_on c s \<noteq> []"
  by (induction s) (auto split: list.splits)

lemma split_on_no_sep: "c \<notin> set s \<Longrightarrow> split_on c s = [s]"
  by (induction s) (auto split: list.splits)

lemma split_on_append:
  "split_on c (a @ b) =
     butlast (split_on c a) @ [last (split_on c a) @ hd (split_on c b)] @ tl (split_on c b)"
proof (induction a)
  case Nil
  then show ?case using split_on_nonempty [of c b] by (cases "split_on c b") auto
next
  case (Cons x a)
  obtain p ps where s: "split_on c a = p # ps"
    using split_on_nonempty [of c a] by (cases "split_on c a") auto
  show ?case
  proof (cases "x = c")
    case True
    then show ?thesis using Cons s by simp
  next
    case False
    then show ?thesis using Cons s by (cases ps) auto
  qed
qed

lemma components_middle:
  assumes "CHR ''/'' \<notin> set mid" and "CHR ''_'' \<in> set mid"
  shows "components (stem @ mid @ suffix) =
           filter (\<lambda>c. c \<noteq> [] \<and> c \<noteq> ''.'') (butlast (split_on CHR ''/'' stem))
           @ [last (split_on CHR ''/'' stem) @ mid @ hd (split_on CHR ''/'' suffix)]
           @ filter (\<lambda>c. c \<noteq> [] \<and> c \<noteq> ''.'') (tl (split_on CHR ''/'' suffix))"
proof -
  have ms: "split_on CHR ''/'' (mid @ suffix)
            = [mid @ hd (split_on CHR ''/'' suffix)] @ tl (split_on CHR ''/'' suffix)"
    using split_on_append [of "CHR ''/''" mid suffix] split_on_no_sep [OF assms(1)] by simp
  have all: "split_on CHR ''/'' (stem @ mid @ suffix)
            = butlast (split_on CHR ''/'' stem)
              @ [last (split_on CHR ''/'' stem) @ mid @ hd (split_on CHR ''/'' suffix)]
              @ tl (split_on CHR ''/'' suffix)"
    using split_on_append [of "CHR ''/''" stem "mid @ suffix"] ms by simp
  have keep: "last (split_on CHR ''/'' stem) @ mid @ hd (split_on CHR ''/'' suffix) \<noteq> []"
    "last (split_on CHR ''/'' stem) @ mid @ hd (split_on CHR ''/'' suffix) \<noteq> ''.''"
    using assms(2) by (auto simp: append_eq_Cons_conv)
  show ?thesis unfolding components_def all using keep by simp
qed

lemma candidate_inj:
  assumes "joinpath sub (stem @ ''_'' @ str_nat a @ suffix)
           = joinpath sub (stem @ ''_'' @ str_nat b @ suffix)"
  shows "a = b"
proof -
  let ?n = "\<lambda>k. stem @ (''_'' @ str_nat k) @ suffix"
  have sw: "startswith (?n a) ''/'' = startswith (?n b) ''/''"
    by (cases stem) (auto simp: startswith_def)
  have "path_parts (joinpath sub (?n a)) = path_parts (joinpath sub (?n b))"
    using assms by simp
  then have "components (?n a) = components (?n b)"
    using sw by (auto simp: joinpath_def Path_def split: if_splits)
  then have "last (split_on CHR ''/'' stem) @ (''_'' @ str_nat a) @ hd (split_on CHR ''/'' suffix)
           = last (split_on CHR ''/'' stem) @ (''_'' @ str_nat b) @ hd (split_on CHR ''/'' suffix)"
    using components_middle [of "''_'' @ str_nat a" stem suffix]
          components_middle [of "''_'' @ str_nat b" stem suffix]
          str_nat_no_slash [of a] str_nat_no_slash [of b]
    by simp
  then have "str_nat a @ hd (split_on CHR ''/'' suffix) = str_nat b @ hd (split_on CHR ''/'' suffix)"
    by simp
  then have "str_nat a = str_nat b" by simp
  then show ?thesis by (rule str_nat_inj)
qed

lemma free_path_None:
  "free_path n fs sub stem suffix fp c = None \<Longrightarrow>
   (\<forall>j. j + 1 < n \<longrightarrow> joinpath sub (stem @ ''_'' @ str_nat (c + j) @ suffix) \<in> set (files fs))"
proof (induction n arbitrary: fp c)
  case 0
  then show ?case by simp
next
  case (Suc n)
  from Suc.prems have in_files: "fp \<in> set (files fs)"
    and rec: "free_path n fs sub stem suffix
                (joinpath sub (stem @ ''_'' @ str_nat c @ suffix)) (c + 1) = None"
    by (auto split: option.splits if_splits)
  show ?case
  proof (intro allI impI)
    fix j assume j: "j + 1 < Suc n"
    show "joinpath sub (stem @ ''_'' @ str_nat (c + j) @ suffix) \<in> set (files fs)"
    proof (cases j)
      case 0
      then have "0 < n" using j by simp
      then obtain m where n: "n = Suc m" by (cases n) auto
      from rec show ?thesis unfolding n 0 by (auto split: option.splits if_splits)
    next
      case (Suc i)
      then have "i + 1 < n" using j by simp
      with Suc.IH [OF rec] have "joinpath sub (stem @ ''_'' @ str_nat (c + 1 + i) @ suffix) \<in> set (files fs)"
        by blast
      then show ?thesis using Suc by simp
    qed
  qed
qed

lemma free_path_returns:
  assumes "length (files fs) + 1 < n"
  shows "\<exists>r. free_path n fs sub stem suffix fp c = Some r"
proof (rule ccontr)
  assume "\<not> (\<exists>r. free_path n fs sub stem suffix fp c = Some r)"
  then have none: "free_path n fs sub stem suffix fp c = None" by (cases "free_path n fs sub stem suffix fp c") auto
  let ?cand = "\<lambda>k. joinpath sub (stem @ ''_'' @ str_nat k @ suffix)"
  have sub: "?cand ` {c ..< c + (n - 1)} \<subseteq> set (files fs)"
  proof
    fix x assume "x \<in> ?cand ` {c ..< c + (n - 1)}"
    then obtain k where k: "c \<le> k" "k < c + (n - 1)" "x = ?cand k" by auto
    then have "(k - c) + 1 < n" by simp
    with free_path_None [OF none] have "?cand (c + (k - c)) \<in> set (files fs)" by blast
    then show "x \<in> set (files fs)" using k by simp
  qed
  have inj: "inj_on ?cand {c ..< c + (n - 1)}"
    by (rule inj_onI) (rule candidate_inj)
  have "card (?cand ` {c ..< c + (n - 1)}) = n - 1"
    using card_image [OF inj] by simp
  moreover have "card (?cand ` {c ..< c + (n - 1)}) \<le> card (set (files fs))"
    by (rule card_mono [OF _ sub]) simp
  moreover have "card (set (files fs)) \<le> length (files fs)" by (rule card_length)
  ultimately show False using assms by simp
qed

lemma download_asset_no_fault:
  "download_asset fs env n url output_dir \<noteq> Some (Inl e)"
  by (auto simp: download_asset_def split: option.splits sum.splits)

lemma download_body_None:
  "download_body fs env n url output_dir = None \<Longrightarrow>
   \<exists>sub stem suffix fp. free_path n fs sub stem suffix fp 1 = None"
  unfolding download_body_def Let_def
  by (auto split: option.splits sum.splits)

lemma download_asset_returns:
  assumes "length (files fs) + 1 < n"
  shows "\<exists>r. download_asset fs env n url output_dir = Some (Inr r)"
proof -
  have "download_body fs env n url output_dir \<noteq> None"
  proof
    assume "download_body fs env n url output_dir = None"
    from download_body_None [OF this] obtain sub stem suffix fp where
      "free_path n fs sub stem suffix fp 1 = None" by blast
    then show False using free_path_returns [OF assms, of sub stem suffix fp 1] by simp
  qed
  then show ?thesis
    by (auto simp: download_asset_def split: option.splits sum.splits)
qed

lemma download_asset_bad_url:
  assumes "urlparse env url = Inl e" and "mkdir fs (Path output_dir) = None"
  shows "download_asset fs env n url output_dir =
           Some (Inr \<lparr>dl_success = False, dl_url = url, dl_saved_to = None,
                      dl_content_type = None, dl_size = None, dl_error = Some (str_exn e)\<rparr>)"
  using assms by (simp add: download_asset_def download_body_def)


section \<open>Faults inside the crawl\<close>

lemma failed_kept:
  assumes "Failed u m \<in> set xs"
  shows "Failed u m \<in> set (xs[i := add_link l (xs ! i)])"
proof -
  from assms obtain j where j: "j < length xs" "xs ! j = Failed u m"
    by (auto simp: in_set_conv_nth)
  have "(xs[i := add_link l (xs ! i)]) ! j = Failed u m"
    using j by (cases "j = i") auto
  then show ?thesis using j(1) by (metis length_list_update nth_mem)
qed

lemma fault_inv_add_link:
  "fault_inv env st \<Longrightarrow>
   fault_inv env (st\<lparr>sitemap := (sitemap st)[i := add_link l (sitemap st ! i)]\<rparr>)"
  by (auto simp: fault_inv_def intro: failed_kept)

lemma fault_inv_append:
  "fault_inv env st \<Longrightarrow> fault_inv env (st\<lparr>sitemap := sitemap st @ [x]\<rparr>)"
  by (auto simp: fault_inv_def)

lemma crawl_fault_aux:
  "(crawl env base max_depth n current_url depth st = Some st' \<longrightarrow>
      (fault_inv env st \<longrightarrow> fault_inv env st') \<and> set (fetched st) \<subseteq> set (fetched st'))"
  "(crawl_links env base max_depth n current_url depth idx links st = Some st' \<longrightarrow>
      (fault_inv env st \<longrightarrow> fault_inv env st') \<and> set (fetched st) \<subseteq> set (fetched st'))"
proof (induction env base max_depth n current_url depth st
         and env base max_depth n current_url depth idx links st
       arbitrary: st' and st'
       rule: crawl_crawl_links.induct)
  case (1 env base max_depth current_url depth st)
  then show ?case by simp
next
  case (2 env base max_depth n current_url depth st)
  show ?case
  proof (intro impI)
    assume c: "crawl env base max_depth (Suc n) current_url depth st = Some st'"
    show "(fault_inv env st \<longrightarrow> fault_inv env st') \<and> set (fetched st) \<subseteq> set (fetched st')"
    proof (cases "depth > max_depth \<or> current_url \<in> visited st")
      case True
      then show ?thesis using c by auto
    next
      case False
      let ?st1 = "st\<lparr>visited := insert current_url (visited st),
                      fetched := fetched st @ [current_url]\<rparr>"
      show ?thesis
      proof (cases "fetch_url env current_url")
        case (Inl e)
        then have "st' = ?st1\<lparr>sitemap := sitemap ?st1 @ [Failed current_url (str_exn e)]\<rparr>"
          using c False by (simp add: Let_def)
        then show ?thesis using Inl by (auto simp: fault_inv_def)
      next
        case (Inr html)
        let ?st2 = "?st1\<lparr>sitemap := sitemap ?st1 @ [Page current_url (title_of (html_parser env html)) []]\<rparr>"
        have i2: "fault_inv env st \<Longrightarrow> fault_inv env ?st2"
          using Inr by (auto simp: fault_inv_def)
        show ?thesis
        proof (cases "depth < max_depth")
          case True
          then have "crawl_links env base max_depth n current_url depth (length (sitemap ?st1))
                       (find_all_a_href (html_parser env html)) ?st2 = Some st'"
            using c False Inr by (simp add: Let_def)
          with "2.IH" [OF False refl Inr refl refl refl True, of st']
          have "fault_inv env ?st2 \<longrightarrow> fault_inv env st'" "set (fetched ?st2) \<subseteq> set (fetched st')"
            by blast+
          then show ?thesis using i2 by auto
        next
          case nd: False
          then have "st' = ?st2" using c False Inr by (simp add: Let_def)
          then show ?thesis using i2 by auto
        qed
      qed
    qed
  qed
next
  case (3 env base max_depth n current_url depth idx st)
  then show ?case by simp
next
  case (4 env base max_depth n current_url depth idx link links st)
  show ?case
  proof (intro impI)
    assume c: "crawl_links env base max_depth n current_url depth idx (link # links) st = Some st'"
    show "(fault_inv env st \<longrightarrow> fault_inv env st') \<and> set (fetched st) \<subseteq> set (fetched st')"
    proof (cases "skip_href (href_of link)")
      case True
      then show ?thesis using "4.IH"(1) [OF True, of st'] c by simp
    next
      case False
      show ?thesis
      proof (cases "normalize_url env base (href_of link)")
        case (Inl e)
        then have "st' = st\<lparr>sitemap := sitemap st @ [Failed current_url (str_exn e)]\<rparr>"
          using False c by simp
        then show ?thesis using fault_inv_append by auto
      next
        case (Inr full_url)
        show ?thesis
        proof (cases "get_base_url env full_url")
          case (Inl e)
          then have "st' = st\<lparr>sitemap := sitemap st @ [Failed current_url (str_exn e)]\<rparr>"
            using False Inr c by simp
          then show ?thesis using fault_inv_append by auto
        next
          case b: (Inr b)
          show ?thesis
          proof (cases "b = base")
            case True
            let ?st1 = "st\<lparr>sitemap := (sitemap st)
                           [idx := add_link (full_url, link_text link) (sitemap st ! idx)]\<rparr>"
            from c False Inr b True obtain st1 where
              c1: "crawl env base max_depth n full_url (depth + 1) ?st1 = Some st1" and
              c2: "crawl_links env base max_depth n current_url depth idx links st1 = Some st'"
              by (auto split: option.splits)
            from "4.IH"(2) [OF False Inr b True, of st1] c1
            have a: "fault_inv env ?st1 \<longrightarrow> fault_inv env st1" "set (fetched ?st1) \<subseteq> set (fetched st1)"
              by blast+
            from "4.IH"(3) [OF False Inr b True c1, of st'] c2
            have b2: "fault_inv env st1 \<longrightarrow> fault_inv env st'" "set (fetched st1) \<subseteq> set (fetched st')"
              by blast+
            show ?thesis using a b2 fault_inv_add_link [of env st idx "(full_url, link_text link)"] by auto
          next
            case nb: False
            then show ?thesis using "4.IH"(4) [OF False Inr b nb, of st'] False Inr b c by simp
          qed
        qed
      qed
    qed
  qed
qed

lemma link_fault_recorded:
  "crawl_links env base max_depth n current_url depth idx links st = Some st' \<Longrightarrow>
   collect_links env base links = Inl e \<Longrightarrow>
   sitemap st' \<noteq> [] \<and> last (sitemap st') = Failed current_url (str_exn e)"
proof (induction links arbitrary: st)
  case Nil
  then show ?case by simp
next
  case (Cons link links)
  show ?case
  proof (cases "skip_href (href_of link)")
    case True
    then show ?thesis using Cons by simp
  next
    case False
    show ?thesis
    proof (cases "normalize_url env base (href_of link)")
      case (Inl e1)
      then show ?thesis using False Cons.prems by auto
    next
      case (Inr full_url)
      show ?thesis
      proof (cases "get_base_url env full_url")
        case (Inl e1)
        then show ?thesis using False Inr Cons.prems by auto
      next
        case b: (Inr b)
        from Cons.prems(2) False Inr b have cl: "collect_links env base links = Inl e"
          by (auto split: sum.splits)
        show ?thesis
        proof (cases "b = base")
          case True
          from Cons.prems(1) False Inr b True obtain st1 where
            "crawl_links env base max_depth n current_url depth idx links st1 = Some st'"
            by (auto split: option.splits)
          from Cons.IH [OF this cl] show ?thesis .
        next
          case nb: False
          then have "crawl_links env base max_depth n current_url depth idx links st = Some st'"
            using Cons.prems(1) False Inr b by simp
          from Cons.IH [OF this cl] show ?thesis .
        qed
      qed
    qed
  qed
qed

lemma crawl_link_fault:
  assumes "crawl env base max_depth (Suc n) u depth st = Some st'"
    and "depth < max_depth" and "u \<notin> visited st" and "fetch_url env u = Inr html"
    and "collect_links env base (find_all_a_href (html_parser env html)) = Inl e"
  shows "sitemap st' \<noteq> [] \<and> last (sitemap st') = Failed u (str_exn e)"
proof -
  let ?st1 = "st\<lparr>visited := insert u (visited st), fetched := fetched st @ [u]\<rparr>"
  let ?st2 = "?st1\<lparr>sitemap := sitemap ?st1 @ [Page u (title_of (html_parser env html)) []]\<rparr>"
  have "crawl_links env base max_depth n u depth (length (sitemap st))
          (find_all_a_href (html_parser env html)) ?st2 = Some st'"
    using assms(1-4) by (simp add: Let_def)
  from link_fault_recorded [OF this assms(5)] show ?thesis .
qed

lemma crawl_faults_recorded:
  assumes "get_base_url env url = Inr base" and "nat max_depth < n"
  shows "\<exists>st. crawl env base max_depth n url 1 init_state = Some st
            \<and> create_site_map env n url max_depth
                = Some (Inr \<lparr>base_url = base, pages = length (sitemap st), sitemap_of = sitemap st\<rparr>)
            \<and> fault_inv env st
            \<and> (1 \<le> max_depth \<longrightarrow> url \<in> set (fetched st))"
proof -
  have f: "nat (max_depth - 1) < n" using assms(2) by linarith
  from crawl_returns [OF f] obtain st where
    c: "crawl env base max_depth n url 1 init_state = Some st" by blast
  have i0: "fault_inv env init_state" by (simp add: fault_inv_def init_state_def)
  have inv: "fault_inv env st" using crawl_fault_aux(1) c i0 by blast
  have seed: "url \<in> set (fetched st)" if m: "1 \<le> max_depth"
  proof -
    obtain k where n: "n = Suc k" using assms(2) by (cases n) auto
    let ?st1 = "init_state\<lparr>visited := insert url (visited init_state),
                            fetched := fetched init_state @ [url]\<rparr>"
    show ?thesis
    proof (cases "fetch_url env url")
      case (Inl e)
      then show ?thesis using c m unfolding n by (auto simp: Let_def init_state_def)
    next
      case (Inr html)
      let ?st2 = "?st1\<lparr>sitemap := sitemap ?st1 @ [Page url (title_of (html_parser env html)) []]\<rparr>"
      show ?thesis
      proof (cases "1 < max_depth")
        case True
        then have "crawl_links env base max_depth k url 1 (length (sitemap ?st1))
                     (find_all_a_href (html_parser env html)) ?st2 = Some st"
          using c Inr unfolding n by (simp add: Let_def init_state_def)
        then have "set (fetched ?st2) \<subseteq> set (fetched st)" using crawl_fault_aux(2) by blast
        then show ?thesis by auto
      next
        case False
        then show ?thesis using c m Inr unfolding n by (auto simp: Let_def init_state_def)
      qed
    qed
  qed
  show ?thesis using c inv seed assms(1) by (auto simp: create_site_map_def)
qed

lemma keeps_failed_refl: "keeps_failed st st"
  by (simp add: keeps_failed_def)

lemma keeps_failed_trans: "keeps_failed a b \<Longrightarrow> keeps_failed b c \<Longrightarrow> keeps_failed a c"
  by (simp add: keeps_failed_def)

lemma keeps_failed_append: "keeps_failed st (st\<lparr>sitemap := sitemap st @ [x]\<rparr>)"
  by (simp add: keeps_failed_def)

lemma keeps_failed_add_link:
  "keeps_failed st (st\<lparr>sitemap := (sitemap st)[i := add_link l (sitemap st ! i)]\<rparr>)"
  by (auto simp: keeps_failed_def intro: failed_kept)

lemma crawl_keeps_failed_aux:
  "(crawl env base max_depth n current_url depth st = Some st' \<longrightarrow> keeps_failed st st')"
  "(crawl_links env base max_depth n current_url depth idx links st = Some st' \<longrightarrow> keeps_failed st st')"
proof (induction env base max_depth n current_url depth st
         and env base max_depth n current_url depth idx links st
       arbitrary: st' and st'
       rule: crawl_crawl_links.induct)
  case (1 env base max_depth current_url depth st)
  then show ?case by simp
next
  case (2 env base max_depth n current_url depth st)
  show ?case
  proof (intro impI)
    assume c: "crawl env base max_depth (Suc n) current_url depth st = Some st'"
    show "keeps_failed st st'"
    proof (cases "depth > max_depth \<or> current_url \<in> visited st")
      case True
      then show ?thesis using c by (auto simp: keeps_failed_def)
    next
      case False
      let ?st1 = "st\<lparr>visited := insert current_url (visited st),
                      fetched := fetched st @ [current_url]\<rparr>"
      show ?thesis
      proof (cases "fetch_url env current_url")
        case (Inl e)
        then have "st' = ?st1\<lparr>sitemap := sitemap ?st1 @ [Failed current_url (str_exn e)]\<rparr>"
          using c False by (simp add: Let_def)
        then show ?thesis by (simp add: keeps_failed_def)
      next
        case (Inr html)
        let ?st2 = "?st1\<lparr>sitemap := sitemap ?st1 @ [Page current_url (title_of (html_parser env html)) []]\<rparr>"
        have i2: "keeps_failed st ?st2" by (simp add: keeps_failed_def)
        show ?thesis
        proof (cases "depth < max_depth")
          case True
          then have "crawl_links env base max_depth n current_url depth (length (sitemap ?st1))
                       (find_all_a_href (html_parser env html)) ?st2 = Some st'"
            using c False Inr by (simp add: Let_def)
          with "2.IH" [OF False refl Inr refl refl refl True, of st']
          have "keeps_failed ?st2 st'" by blast
          with i2 show ?thesis by (rule keeps_failed_trans)
        next
          case nd: False
          then have "st' = ?st2" using c False Inr by (simp add: Let_def)
          then show ?thesis using i2 by simp
        qed
      qed
    qed
  qed
next
  case (3 env base max_depth n current_url depth idx st)
  then show ?case by (simp add: keeps_failed_def)
next
  case (4 env base max_depth n current_url depth idx link links st)
  show ?case
  proof (intro impI)
    assume c: "crawl_links env base max_depth n current_url depth idx (link # links) st = Some st'"
    show "keeps_failed st st'"
    proof (cases "skip_href (href_of link)")
      case True
      then show ?thesis using "4.IH"(1) [OF True, of st'] c by simp
    next
      case False
      show ?thesis
      proof (cases "normalize_url env base (href_of link)")
        case (Inl e)
        then have "st' = st\<lparr>sitemap := sitemap st @ [Failed current_url (str_exn e)]\<rparr>"
          using False c by simp
        then show ?thesis using keeps_failed_append by simp
      next
        case (Inr full_url)
        show ?thesis
        proof (cases "get_base_url env full_url")
          case (Inl e)
          then have "st' = st\<lparr>sitemap := sitemap st @ [Failed current_url (str_exn e)]\<rparr>"
            using False Inr c by simp
          then show ?thesis using keeps_failed_append by simp
        next
          case b: (Inr b)
          show ?thesis
          proof (cases "b = base")
            case True
            let ?st1 = "st\<lparr>sitemap := (sitemap st)
                           [idx := add_link (full_url, link_text link) (sitemap st ! idx)]\<rparr>"
            from c False Inr b True obtain st1 where
              c1: "crawl env base max_depth n full_url (depth + 1) ?st1 = Some st1" and
              c2: "crawl_links env base max_depth n current_url depth idx links st1 = Some st'"
              by (auto split: option.splits)
            from "4.IH"(2) [OF False Inr b True, of st1] c1
            have a: "keeps_failed ?st1 st1" by blast
            from "4.IH"(3) [OF False Inr b True c1, of st'] c2
            have b2: "keeps_failed st1 st'" by blast
            have "keeps_failed st ?st1" by (rule keeps_failed_add_link)
            then show ?thesis using a b2 keeps_failed_trans by blast
          next
            case nb: False
            then show ?thesis using "4.IH"(4) [OF False Inr b nb, of st'] False Inr b c by simp
          qed
        qed
      qed
    qed
  qed
qed

lemma crawl_link_fault_returns:
  assumes "depth < max_depth" and "nat (max_depth - depth) \<le> n" and "u \<notin> visited st"
    and "fetch_url env u = Inr html"
    and "collect_links env base (find_all_a_href (html_parser env html)) = Inl e"
  shows "\<exists>st'. crawl env base max_depth (Suc n) u depth st = Some st'
             \<and> sitemap st' \<noteq> [] \<and> last (sitemap st') = Failed u (str_exn e)"
proof -
  have "nat (max_depth - depth) < Suc n" using assms(2) by simp
  from crawl_returns [OF this] obtain st' where
    c: "crawl env base max_depth (Suc n) u depth st = Some st'" by blast
  from crawl_link_fault [OF c assms(1) assms(3) assms(4) assms(5)] c show ?thesis by blast
qed


section \<open>Faults of the URL helpers outside a handler\<close>

lemma extract_assets_propagates:
  assumes "get_base_url env url = Inr base"
    and "ref \<in> set (discovered (html_parser env html) key)"
    and "normalize_url env base ref = Inl e"
  shows "\<exists>e'. extract_assets env url html = Inl e'"
proof (cases "extract_assets env url html")
  case (Inl e')
  then show ?thesis by blast
next
  case (Inr a)
  then have "extract_loops env base (html_parser env html) empty_assets = Inr a"
    using assms(1) by (simp add: extract_assets_def)
  from extract_loops_result [OF this] obtain c j i f v oth where
    r: "map (normalize_url env base) (discovered (html_parser env html) ''css'') = map Inr c"
       "map (normalize_url env base) (discovered (html_parser env html) ''javascript'') = map Inr j"
       "map (normalize_url env base) (discovered (html_parser env html) ''images'') = map Inr i"
       "map (normalize_url env base) (discovered (html_parser env html) ''fonts'') = map Inr f"
       "map (normalize_url env base) (discovered (html_parser env html) ''videos'') = map Inr v"
       "map (normalize_url env base) (discovered (html_parser env html) ''other'') = map Inr oth"
    by blast
  have "key \<in> {''css'', ''javascript'', ''images'', ''fonts'', ''videos'', ''other''}"
    using assms(2) discovered_other_keys [of key "html_parser env html"] by fastforce
  then obtain rs where
    "map (normalize_url env base) (discovered (html_parser env html) key) = map Inr rs"
    using r by auto
  then have "normalize_url env base ref \<in> Inr ` set rs"
    using assms(2) by (metis image_eqI list.set_map)
  then show ?thesis using assms(3) by auto
qed

lemma parse_css_propagates:
  assumes "get_base_url env css_url = Inr base"
    and "ref \<in> set (find_urls text)"
    and "normalize_url env base ref = Inl e"
  shows "\<exists>e'. parse_css_for_assets env css_url (Some text) = Inl e'"
proof (cases "for_each (classify_url env base) (find_urls text) ([], [])")
  case (Inl e')
  then show ?thesis using assms(1) by (simp add: parse_css_for_assets_def)
next
  case (Inr acc)
  from classify_loop [OF Inr] obtain rs where
    "map (normalize_url env base) (find_urls text) = map Inr rs" by blast
  then have "normalize_url env base ref \<in> Inr ` set rs"
    using assms(2) by (metis image_eqI list.set_map)
  then show ?thesis using assms(3) by auto
qed


text \<open>
  C2, as amended. \<open>fetch_page\<close> and \<open>download_asset\<close> return a structured result
  for every input: a fault of their body becomes the payload of a failure
  (\<open>download_asset\<close> returns once its loop may test more paths than there are files,
  and a URL that \<open>urlparse\<close> refuses gives \<open>{success: False, url, error}\<close>).
  \<open>analyze_page_structure\<close> returns its report for every markup that the parser turns
  into a tree. Once \<open>get_base_url\<close> has returned for the given URL,
  \<open>create_site_map\<close> returns the sitemap of the crawl; in it every URL whose fetch
  failed has its \<open>{url, error}\<close> entry, and the seed is fetched when
  \<open>max_depth \<ge> 1\<close>. A call of \<open>crawl\<close> that fetches its page and then meets a
  fault in the loop over the links returns with \<open>{url, error}\<close> of that page as the last
  entry of the sitemap, and no call of \<open>crawl\<close> removes an error entry.
  \<open>parse_css_for_assets\<close> turns a failed fetch into
  \<open>{error, fonts: [], images: []}\<close>. Outside these handlers a fault reaches the caller:
  a fault of \<open>get_base_url\<close> on the given URL, from \<open>create_site_map\<close>,
  \<open>extract_assets\<close> and \<open>parse_css_for_assets\<close>; a fault of
  \<open>normalize_url\<close> on a reference discovered in the markup, from
  \<open>extract_assets\<close>; and one on a \<open>url(...)\<close> reference of the stylesheet text,
  from \<open>parse_css_for_assets\<close>.
\<close>

theorem faults_captured_in_handlers:
  "(\<exists>p. fetch_page env url = Inr p
        \<and> (\<forall>e. fetch_url env url = Inl e \<longrightarrow>
               p = \<lparr>pp_error = Some (str_exn e), pp_content = None, pp_status_code = None,
                    pp_headers = None, pp_url = url\<rparr>))
   \<and> (length (files fs) + 1 < k \<longrightarrow>
        (\<exists>r. download_asset fs env k url output_dir = Some (Inr r)
            \<and> (\<forall>e. download_body fs env k url output_dir = Some (Inl e) \<longrightarrow>
                   r = \<lparr>dl_success = False, dl_url = url, dl_saved_to = None,
                        dl_content_type = None, dl_size = None, dl_error = Some (str_exn e)\<rparr>)))
   \<and> (mkdir fs (Path output_dir) = None \<longrightarrow> urlparse env url = Inl e \<longrightarrow>
        download_asset fs env k url output_dir
          = Some (Inr \<lparr>dl_success = False, dl_url = url, dl_saved_to = None,
                       dl_content_type = None, dl_size = None, dl_error = Some (str_exn e)\<rparr>))
   \<and> (\<exists>rep. analyze_page_structure env html = Inr rep)
   \<and> (get_base_url env url = Inr base \<longrightarrow> nat max_depth < n \<longrightarrow>
        (\<exists>st. crawl env base max_depth n url 1 init_state = Some st
             \<and> create_site_map env n url max_depth
                 = Some (Inr \<lparr>base_url = base, pages = length (sitemap st), sitemap_of = sitemap st\<rparr>)
             \<and> (\<forall>v e. v \<in> set (fetched st) \<longrightarrow> fetch_url env v = Inl e \<longrightarrow>
                    Failed v (str_exn e) \<in> set (sitemap st))
             \<and> (1 \<le> max_depth \<longrightarrow> url \<in> set (fetched st))))
   \<and> (depth < max_depth \<longrightarrow> nat (max_depth - depth) \<le> n \<longrightarrow> u \<notin> visited st0 \<longrightarrow>
        fetch_url env u = Inr page \<longrightarrow>
        collect_links env base (find_all_a_href (html_parser env page)) = Inl e \<longrightarrow>
        (\<exists>st'. crawl env base max_depth (Suc n) u depth st0 = Some st'
              \<and> sitemap st' \<noteq> [] \<and> last (sitemap st') = Failed u (str_exn e)))
   \<and> (crawl env base max_depth n u depth st0 = Some st1 \<longrightarrow>
        Failed v m \<in> set (sitemap st0) \<longrightarrow> Failed v m \<in> set (sitemap st1))
   \<and> (get_base_url env css_url = Inr cbase \<longrightarrow> fetch_url env css_url = Inl e \<longrightarrow>
        parse_css_for_assets env css_url None
          = Inr \<lparr>css_error = Some (str_exn e), fonts = [], images = []\<rparr>)
   \<and> (get_base_url env url = Inl e' \<longrightarrow>
        create_site_map env n url max_depth = Some (Inl e')
        \<and> extract_assets env url html = Inl e'
        \<and> parse_css_for_assets env url content = Inl e')
   \<and> (get_base_url env url = Inr base \<longrightarrow>
        ref \<in> set (discovered (html_parser env html) key) \<longrightarrow>
        normalize_url env base ref = Inl e \<longrightarrow>
        (\<exists>e''. extract_assets env url html = Inl e''))
   \<and> (get_base_url env css_url = Inr cbase \<longrightarrow> ref \<in> set (find_urls sheet) \<longrightarrow>
        normalize_url env cbase ref = Inl e \<longrightarrow>
        (\<exists>e''. parse_css_for_assets env css_url (Some sheet) = Inl e''))"
proof -
  have 1: "\<exists>p. fetch_page env url = Inr p
        \<and> (\<forall>e. fetch_url env url = Inl e \<longrightarrow>
               p = \<lparr>pp_error = Some (str_exn e), pp_content = None, pp_status_code = None,
                    pp_headers = None, pp_url = url\<rparr>)"
    by (cases "fetch_url env url") (simp_all add: fetch_page_def)
  have 2: "length (files fs) + 1 < k \<longrightarrow>
        (\<exists>r. download_asset fs env k url output_dir = Some (Inr r)
            \<and> (\<forall>e. download_body fs env k url output_dir = Some (Inl e) \<longrightarrow>
                   r = \<lparr>dl_success = False, dl_url = url, dl_saved_to = None,
                        dl_content_type = None, dl_size = None, dl_error = Some (str_exn e)\<rparr>))"
  proof
    assume "length (files fs) + 1 < k"
    from download_asset_returns [OF this] obtain r where
      r: "download_asset fs env k url output_dir = Some (Inr r)" by blast
    have "\<forall>e. download_body fs env k url output_dir = Some (Inl e) \<longrightarrow>
                   r = \<lparr>dl_success = False, dl_url = url, dl_saved_to = None,
                        dl_content_type = None, dl_size = None, dl_error = Some (str_exn e)\<rparr>"
      using r by (auto simp: download_asset_def)
    with r show "\<exists>r. download_asset fs env k url output_dir = Some (Inr r)
            \<and> (\<forall>e. download_body fs env k url output_dir = Some (Inl e) \<longrightarrow>
                   r = \<lparr>dl_success = False, dl_url = url, dl_saved_to = None,
                        dl_content_type = None, dl_size = None, dl_error = Some (str_exn e)\<rparr>)"
      by blast
  qed
  have 3: "mkdir fs (Path output_dir) = None \<longrightarrow> urlparse env url = Inl e \<longrightarrow>
        download_asset fs env k url output_dir
          = Some (Inr \<lparr>dl_success = False, dl_url = url, dl_saved_to = None,
                       dl_content_type = None, dl_size = None, dl_error = Some (str_exn e)\<rparr>)"
    using download_asset_bad_url by blast
  have 4: "\<exists>rep. analyze_page_structure env html = Inr rep"
    by (simp add: analyze_page_structure_def Let_def)
  have 5: "get_base_url env url = Inr base \<longrightarrow> nat max_depth < n \<longrightarrow>
        (\<exists>st. crawl env base max_depth n url 1 init_state = Some st
             \<and> create_site_map env n url max_depth
                 = Some (Inr \<lparr>base_url = base, pages = length (sitemap st), sitemap_of = sitemap st\<rparr>)
             \<and> (\<forall>v e. v \<in> set (fetched st) \<longrightarrow> fetch_url env v = Inl e \<longrightarrow>
                    Failed v (str_exn e) \<in> set (sitemap st))
             \<and> (1 \<le> max_depth \<longrightarrow> url \<in> set (fetched st)))"
    using crawl_faults_recorded [of env url base max_depth n] unfolding fault_inv_def by blast
  have 6: "depth < max_depth \<longrightarrow> nat (max_depth - depth) \<le> n \<longrightarrow> u \<notin> visited st0 \<longrightarrow>
        fetch_url env u = Inr page \<longrightarrow>
        collect_links env base (find_all_a_href (html_parser env page)) = Inl e \<longrightarrow>
        (\<exists>st'. crawl env base max_depth (Suc n) u depth st0 = Some st'
              \<and> sitemap st' \<noteq> [] \<and> last (sitemap st') = Failed u (str_exn e))"
    using crawl_link_fault_returns by blast
  have 7: "crawl env base max_depth n u depth st0 = Some st1 \<longrightarrow>
        Failed v m \<in> set (sitemap st0) \<longrightarrow> Failed v m \<in> set (sitemap st1)"
    using crawl_keeps_failed_aux(1) [of env base max_depth n u depth st0 st1]
    unfolding keeps_failed_def by blast
  have 8: "get_base_url env css_url = Inr cbase \<longrightarrow> fetch_url env css_url = Inl e \<longrightarrow>
        parse_css_for_assets env css_url None
          = Inr \<lparr>css_error = Some (str_exn e), fonts = [], images = []\<rparr>"
    by (simp add: parse_css_for_assets_def)
  have 9: "get_base_url env url = Inl e' \<longrightarrow>
        create_site_map env n url max_depth = Some (Inl e')
        \<and> extract_assets env url html = Inl e'
        \<and> parse_css_for_assets env url content = Inl e'"
    by (simp add: create_site_map_def extract_assets_def parse_css_for_assets_def)
  have 10: "get_base_url env url = Inr base \<longrightarrow>
        ref \<in> set (discovered (html_parser env html) key) \<longrightarrow>
        normalize_url env base ref = Inl e \<longrightarrow>
        (\<exists>e''. extract_assets env url html = Inl e'')"
    using extract_assets_propagates by blast
  have 11: "get_base_url env css_url = Inr cbase \<longrightarrow> ref \<in> set (find_urls sheet) \<longrightarrow>
        normalize_url env cbase ref = Inl e \<longrightarrow>
        (\<exists>e''. parse_css_for_assets env css_url (Some sheet) = Inl e'')"
    using parse_css_propagates by blast
  from 1 2 3 4 5 6 7 8 9 10 11 show ?thesis by (intro conjI)
qed

theorem faults_captured_in_handlers_witness:
  "fetch_page logo_env ''https://example.com/nope.png''
     = Inr \<lparr>pp_error = Some ''404 Not Found'', pp_content = None, pp_status_code = None,
            pp_headers = None, pp_url = ''https://example.com/nope.png''\<rparr>
   \<and> download_asset disk logo_env 4 ''https://example.com/img/logo.png'' ''out''
       = Some (Inr \<lparr>dl_success = True, dl_url = ''https://example.com/img/logo.png'',
                    dl_saved_to = Some ''out/images/logo_2.png'',
                    dl_content_type = Some ''image/png'', dl_size = Some 3, dl_error = None\<rparr>)
   \<and> download_asset disk logo_env 4 ''https://example.com/nope.png'' ''out''
       = Some (Inr \<lparr>dl_success = False, dl_url = ''https://example.com/nope.png'',
                    dl_saved_to = None, dl_content_type = None, dl_size = None,
                    dl_error = Some ''404 Not Found''\<rparr>)
   \<and> download_asset disk logo_env 4 ''http://['' ''out''
       = Some (Inr \<lparr>dl_success = False, dl_url = ''http://['', dl_saved_to = None,
                    dl_content_type = None, dl_size = None,
                    dl_error = Some ''Invalid IPv6 URL''\<rparr>)
   \<and> (\<exists>rep. analyze_page_structure page_env meta_html = Inr rep)
   \<and> (\<exists>st::crawl_state. create_site_map home_env 3 ''https://example.com/missing'' 2
              = Some (Inr \<lparr>base_url = ''https://example.com'', pages = length (sitemap st),
                           sitemap_of = sitemap st\<rparr>)
          \<and> Failed ''https://example.com/missing'' ''404 Not Found'' \<in> set (sitemap st))
   \<and> (\<exists>st'. crawl bracket_env ''https://example.com'' 2 (Suc 1) ''https://example.com/'' 1 init_state
               = Some st'
           \<and> sitemap st' \<noteq> []
           \<and> last (sitemap st') = Failed ''https://example.com/'' ''Invalid IPv6 URL'')
   \<and> (\<exists>st1. crawl home_env ''https://example.com'' 2 3 ''https://example.com/'' 1
                (init_state\<lparr>sitemap := [Failed ''https://example.com/old'' ''boom'']\<rparr>) = Some st1
           \<and> Failed ''https://example.com/old'' ''boom'' \<in> set (sitemap st1))
   \<and> parse_css_for_assets home_env ''https://example.com/missing.css'' None
       = Inr \<lparr>css_error = Some ''404 Not Found'', fonts = [], images = []\<rparr>
   \<and> create_site_map home_env 3 ''http://['' 2 = Some (Inl (ValueError ''Invalid IPv6 URL''))
   \<and> extract_assets home_env ''http://['' home_html = Inl (ValueError ''Invalid IPv6 URL'')
   \<and> parse_css_for_assets home_env ''http://['' None = Inl (ValueError ''Invalid IPv6 URL'')
   \<and> (\<exists>e''. extract_assets broken_img_env ''https://example.com/'' broken_img_html = Inl e'')
   \<and> (\<exists>e''. parse_css_for_assets page_env ''https://example.com/s.css''
                (Some ''a{background:url(//[)}'') = Inl e'')"
proof -
  note t = faults_captured_in_handlers
  note d1 = conjunct2
  note d2 = d1 [THEN conjunct2]
  note d3 = d2 [THEN conjunct2]
  note d4 = d3 [THEN conjunct2]
  note d5 = d4 [THEN conjunct2]
  note d6 = d5 [THEN conjunct2]
  note d7 = d6 [THEN conjunct2]
  note d8 = d7 [THEN conjunct2]
  note d9 = d8 [THEN conjunct2]
  note d10 = d9 [THEN conjunct2]
  let ?base = "''https://example.com''"
  let ?bad = "ValueError ''Invalid IPv6 URL''"
  let ?nf = "FetchError ''404 Not Found''"
  have s1: "str_exn ?nf = ''404 Not Found''" and s2: "str_exn ?bad = ''Invalid IPv6 URL''"
    by code_simp+
  \<comment> \<open>fetch_page\<close>
  have fe: "fetch_url logo_env ''https://example.com/nope.png'' = Inl ?nf" by code_simp
  from t [where env = logo_env and url = "''https://example.com/nope.png''", THEN conjunct1]
  obtain p where
    p: "fetch_page logo_env ''https://example.com/nope.png'' = Inr p
        \<and> (\<forall>e. fetch_url logo_env ''https://example.com/nope.png'' = Inl e \<longrightarrow>
               p = \<lparr>pp_error = Some (str_exn e), pp_content = None, pp_status_code = None,
                    pp_headers = None, pp_url = ''https://example.com/nope.png''\<rparr>)" ..
  have 1: "fetch_page logo_env ''https://example.com/nope.png''
     = Inr \<lparr>pp_error = Some ''404 Not Found'', pp_content = None, pp_status_code = None,
            pp_headers = None, pp_url = ''https://example.com/nope.png''\<rparr>"
    using p [THEN conjunct1] p [THEN conjunct2, rule_format, OF fe] by (simp add: s1)
  \<comment> \<open>download_asset\<close>
  have fu: "length (files disk) + 1 < 4" by code_simp
  have dv: "download_asset disk logo_env 4 ''https://example.com/img/logo.png'' ''out''
       = Some (Inr \<lparr>dl_success = True, dl_url = ''https://example.com/img/logo.png'',
                    dl_saved_to = Some ''out/images/logo_2.png'',
                    dl_content_type = Some ''image/png'', dl_size = Some 3, dl_error = None\<rparr>)"
    by code_simp
  from t [where fs = disk and env = logo_env and k = 4
            and url = "''https://example.com/img/logo.png''" and output_dir = "''out''",
          THEN d1 [THEN conjunct1], THEN mp, OF fu]
  obtain r0 where
    r0: "download_asset disk logo_env 4 ''https://example.com/img/logo.png'' ''out'' = Some (Inr r0)
         \<and> (\<forall>e. download_body disk logo_env 4 ''https://example.com/img/logo.png'' ''out''
                   = Some (Inl e) \<longrightarrow>
                 r0 = \<lparr>dl_success = False, dl_url = ''https://example.com/img/logo.png'',
                       dl_saved_to = None, dl_content_type = None, dl_size = None,
                       dl_error = Some (str_exn e)\<rparr>)" ..
  have 2: "download_asset disk logo_env 4 ''https://example.com/img/logo.png'' ''out''
       = Some (Inr \<lparr>dl_success = True, dl_url = ''https://example.com/img/logo.png'',
                    dl_saved_to = Some ''out/images/logo_2.png'',
                    dl_content_type = Some ''image/png'', dl_size = Some 3, dl_error = None\<rparr>)"
    using r0 [THEN conjunct1] dv by simp
  have db: "download_body disk logo_env 4 ''https://example.com/nope.png'' ''out'' = Some (Inl ?nf)"
    by code_simp
  from t [where fs = disk and env = logo_env and k = 4
            and url = "''https://example.com/nope.png''" and output_dir = "''out''",
          THEN d1 [THEN conjunct1], THEN mp, OF fu]
  obtain r where
    r: "download_asset disk logo_env 4 ''https://example.com/nope.png'' ''out'' = Some (Inr r)
        \<and> (\<forall>e. download_body disk logo_env 4 ''https://example.com/nope.png'' ''out''
                  = Some (Inl e) \<longrightarrow>
                r = \<lparr>dl_success = False, dl_url = ''https://example.com/nope.png'',
                     dl_saved_to = None, dl_content_type = None, dl_size = None,
                     dl_error = Some (str_exn e)\<rparr>)" ..
  have 3: "download_asset disk logo_env 4 ''https://example.com/nope.png'' ''out''
       = Some (Inr \<lparr>dl_success = False, dl_url = ''https://example.com/nope.png'',
                    dl_saved_to = None, dl_content_type = None, dl_size = None,
                    dl_error = Some ''404 Not Found''\<rparr>)"
    using r [THEN conjunct1] r [THEN conjunct2, rule_format, OF db] by (simp add: s1)
  have mk: "mkdir disk (Path ''out'') = None" by code_simp
  have up: "urlparse logo_env ''http://['' = Inl ?bad" by code_simp
  from t [where fs = disk and env = logo_env and k = 4 and url = "''http://[''"
            and output_dir = "''out''" and e = ?bad,
          THEN d2 [THEN conjunct1], THEN mp, OF mk, THEN mp, OF up]
  have 4: "download_asset disk logo_env 4 ''http://['' ''out''
       = Some (Inr \<lparr>dl_success = False, dl_url = ''http://['', dl_saved_to = None,
                    dl_content_type = None, dl_size = None,
                    dl_error = Some ''Invalid IPv6 URL''\<rparr>)"
    by (simp add: s2)
  \<comment> \<open>analyze_page_structure\<close>
  from t [where env = page_env and html = meta_html, THEN d3 [THEN conjunct1]]
  have 5: "\<exists>rep. analyze_page_structure page_env meta_html = Inr rep" .
  \<comment> \<open>create_site_map\<close>
  have b: "get_base_url home_env ''https://example.com/missing'' = Inr ?base" by code_simp
  have f: "nat 2 < (3::nat)" by simp
  have fm: "fetch_url home_env ''https://example.com/missing'' = Inl ?nf" by code_simp
  from t [where env = home_env and url = "''https://example.com/missing''" and base = ?base
            and max_depth = 2 and n = 3, THEN d4 [THEN conjunct1], THEN mp, OF b, THEN mp, OF f]
  obtain st where
    a: "crawl home_env ?base 2 3 ''https://example.com/missing'' 1 init_state = Some st
        \<and> create_site_map home_env 3 ''https://example.com/missing'' 2
            = Some (Inr \<lparr>base_url = ?base, pages = length (sitemap st), sitemap_of = sitemap st\<rparr>)
        \<and> (\<forall>v e. v \<in> set (fetched st) \<longrightarrow> fetch_url home_env v = Inl e \<longrightarrow>
               Failed v (str_exn e) \<in> set (sitemap st))
        \<and> ((1::int) \<le> 2 \<longrightarrow> ''https://example.com/missing'' \<in> set (fetched st))" ..
  note c = a [THEN conjunct2, THEN conjunct1]
  note inv = a [THEN conjunct2, THEN conjunct2, THEN conjunct1]
  have seed: "''https://example.com/missing'' \<in> set (fetched st)"
    using a [THEN conjunct2, THEN conjunct2, THEN conjunct2] by simp
  have m: "Failed ''https://example.com/missing'' ''404 Not Found'' \<in> set (sitemap st)"
    using inv [rule_format, OF seed fm] by (simp add: s1)
  have 6: "\<exists>st::crawl_state. create_site_map home_env 3 ''https://example.com/missing'' 2
              = Some (Inr \<lparr>base_url = ''https://example.com'', pages = length (sitemap st),
                           sitemap_of = sitemap st\<rparr>)
          \<and> Failed ''https://example.com/missing'' ''404 Not Found'' \<in> set (sitemap st)"
    by (rule exI [of _ st], rule conjI [OF c m])
  \<comment> \<open>a fault in the loop over the links\<close>
  have d: "(1::int) < 2" by simp
  have fl: "nat (2 - 1) \<le> (1::nat)" by simp
  have nv: "''https://example.com/'' \<notin> visited init_state" by (simp add: init_state_def)
  have fb: "fetch_url bracket_env ''https://example.com/'' = Inr bracket_html" by code_simp
  have cl: "collect_links bracket_env ?base (find_all_a_href (html_parser bracket_env bracket_html))
              = Inl ?bad" by code_simp
  from t [where env = bracket_env and base = ?base and max_depth = 2 and depth = 1 and n = 1
            and u = "''https://example.com/''" and ?st0.0 = init_state and page = bracket_html
            and e = ?bad,
          THEN d5 [THEN conjunct1], THEN mp, OF d, THEN mp, OF fl, THEN mp, OF nv,
          THEN mp, OF fb, THEN mp, OF cl]
  have 7: "\<exists>st'. crawl bracket_env ''https://example.com'' 2 (Suc 1) ''https://example.com/'' 1 init_state
               = Some st'
           \<and> sitemap st' \<noteq> []
           \<and> last (sitemap st') = Failed ''https://example.com/'' ''Invalid IPv6 URL''"
    by (simp add: s2)
  \<comment> \<open>an error entry stays\<close>
  let ?st0 = "init_state\<lparr>sitemap := [Failed ''https://example.com/old'' ''boom'']\<rparr>"
  have "map_option (\<lambda>st. ()) (crawl home_env ?base 2 3 ''https://example.com/'' 1 ?st0) = Some ()"
    by code_simp
  then obtain st1 where
    c1: "crawl home_env ?base 2 3 ''https://example.com/'' 1 ?st0 = Some st1" by auto
  have old: "Failed ''https://example.com/old'' ''boom'' \<in> set (sitemap ?st0)" by simp
  from t [where env = home_env and base = ?base and max_depth = 2 and n = 3 and depth = 1
            and u = "''https://example.com/''" and ?st0.0 = ?st0 and ?st1.0 = st1
            and v = "''https://example.com/old''" and m = "''boom''",
          THEN d6 [THEN conjunct1], THEN mp, OF c1, THEN mp, OF old]
  have k: "Failed ''https://example.com/old'' ''boom'' \<in> set (sitemap st1)" .
  have 8: "\<exists>st1. crawl home_env ''https://example.com'' 2 3 ''https://example.com/'' 1
                (init_state\<lparr>sitemap := [Failed ''https://example.com/old'' ''boom'']\<rparr>) = Some st1
           \<and> Failed ''https://example.com/old'' ''boom'' \<in> set (sitemap st1)"
    by (rule exI [of _ st1], rule conjI [OF c1 k])
  \<comment> \<open>parse_css_for_assets, a failed fetch\<close>
  have cb: "get_base_url home_env ''https://example.com/missing.css'' = Inr ?base" by code_simp
  have fc: "fetch_url home_env ''https://example.com/missing.css'' = Inl ?nf" by code_simp
  from t [where env = home_env and css_url = "''https://example.com/missing.css''"
            and cbase = ?base and e = ?nf,
          THEN d7 [THEN conjunct1], THEN mp, OF cb, THEN mp, OF fc]
  have 9: "parse_css_for_assets home_env ''https://example.com/missing.css'' None
       = Inr \<lparr>css_error = Some ''404 Not Found'', fonts = [], images = []\<rparr>"
    by (simp add: s1)
  \<comment> \<open>get_base_url raises\<close>
  have bad: "get_base_url home_env ''http://['' = Inl ?bad" by code_simp
  note g = t [where env = home_env and url = "''http://[''" and e' = ?bad
            and n = 3 and max_depth = 2 and html = home_html and content = None,
            THEN d8 [THEN conjunct1], THEN mp, OF bad]
  note g10 = g [THEN conjunct1]
  note g11 = g [THEN conjunct2, THEN conjunct1]
  note g12 = g [THEN conjunct2, THEN conjunct2]
  \<comment> \<open>normalize_url raises on a discovered reference\<close>
  have bb: "get_base_url broken_img_env ''https://example.com/'' = Inr ?base" by code_simp
  have rf: "''//['' \<in> set (discovered (html_parser broken_img_env broken_img_html) ''images'')"
    by code_simp
  have nb: "normalize_url broken_img_env ?base ''//['' = Inl ?bad" by code_simp
  from t [where env = broken_img_env and url = "''https://example.com/''" and base = ?base
            and html = broken_img_html and ref = "''//[''" and key = "''images''" and e = ?bad,
          THEN d9 [THEN conjunct1], THEN mp, OF bb, THEN mp, OF rf, THEN mp, OF nb]
  have 13: "\<exists>e''. extract_assets broken_img_env ''https://example.com/'' broken_img_html = Inl e''" .
  have cb2: "get_base_url page_env ''https://example.com/s.css'' = Inr ?base" by code_simp
  have cr2: "''//['' \<in> set (find_urls ''a{background:url(//[)}'')" by code_simp
  have cn2: "normalize_url page_env ?base ''//['' = Inl ?bad" by code_simp
  from t [where env = page_env and css_url = "''https://example.com/s.css''" and cbase = ?base
            and sheet = "''a{background:url(//[)}''" and ref = "''//[''" and e = ?bad,
          THEN d10, THEN mp, OF cb2, THEN mp, OF cr2, THEN mp, OF cn2]
  have 14: "\<exists>e''. parse_css_for_assets page_env ''https://example.com/s.css''
                (Some ''a{background:url(//[)}'') = Inl e''" .
  from 1 2 3 4 5 6 7 8 9 g10 g11 g12 13 14 show ?thesis by (intro conjI)
qed

text \<open>
  C2 as stated fails: \<open>extract_assets\<close> called with the URL \<open>http://[\<close> raises the
  \<open>ValueError\<close> of \<open>urlparse\<close> (unmatched bracket in the network location); so
  does \<open>extract_assets\<close> on the markup \<open><img src=//[>\<close>, and
  \<open>parse_css_for_assets\<close> on the stylesheet text \<open>a{background:url(//[)}\<close>:
  neither function has a handler around the URL helpers.
\<close>

theorem fault_propagates_counterexample:
  "extract_assets page_env ''http://['' [] = Inl (ValueError ''Invalid IPv6 URL'')
   \<and> extract_assets broken_img_env ''https://example.com/'' broken_img_html
       = Inl (ValueError ''Invalid IPv6 URL'')
   \<and> parse_css_for_assets page_env ''https://example.com/s.css'' (Some ''a{background:url(//[)}'')
       = Inl (ValueError ''Invalid IPv6 URL'')"
  by code_simp


lemma add_links_Page: "add_links ls (Page u t l0) = Page u t (l0 @ ls)"
  by (induction ls arbitrary: l0) simp_all

text \<open>Within one call of \<open>create_site_map\<close> no URL is fetched twice.\<close>

lemma crawl_fetches_once:
  assumes "create_site_map env n url max_depth = Some (Inr r)"
  shows "\<exists>st. crawl env (base_url r) max_depth n url 1 init_state = Some st
            \<and> sitemap_of r = sitemap st \<and> distinct (fetched st)"
proof -
  from assms obtain base st where
    "get_base_url env url = Inr base" and
    c: "crawl env base max_depth n url 1 init_state = Some st" and
    r: "r = \<lparr>base_url = base, pages = length (sitemap st), sitemap_of = sitemap st\<rparr>"
    by (auto simp: create_site_map_def split: sum.splits option.splits)
  have "fetch_inv init_state" by (simp add: fetch_inv_def init_state_def)
  then have "fetch_inv st" using crawl_visited_aux(1) c by blast
  then show ?thesis using c r by (auto simp: fetch_inv_def)
qed

text \<open>
  C7, at the input where the code departs from it. The seed page has the one link
  \<open><a href=//[>x</a>\<close>. With \<open>max_depth = 2\<close> the entry of the seed is appended,
  then \<open>normalize_url\<close> raises on the link, and the \<open>except\<close> of the same call
  appends a second entry, \<open>{url, error}\<close>, for the same URL: two entries for a URL that
  was fetched once.
\<close>

theorem double_entry_at_bracket_link:
  "fetch_url bracket_env ''https://example.com/'' = Inr bracket_html
   \<and> find_all_a_href (html_parser bracket_env bracket_html)
       = [Tag ''a'' [(''href'', ''//['')] [NavigableString ''x'']]
   \<and> create_site_map bracket_env 2 ''https://example.com/'' 2 =
       Some (Inr \<lparr>base_url = ''https://example.com'', pages = 2,
                  sitemap_of = [Page ''https://example.com/'' ''No title'' [],
                                Failed ''https://example.com/'' ''Invalid IPv6 URL'']\<rparr>)"
  by code_simp

text \<open>
  When a page at a depth below \<open>max_depth\<close> is fetched and the resolution of its links
  raises nothing, the \<open>links\<close> array of its entry is the list of all its same-origin
  links, in document order and with repetitions, whatever the visited set holds:
  \<open>collect_links\<close> does not read it.
\<close>

lemma entry_links_collected:
  assumes "crawl env base max_depth (Suc n) url depth st = Some st'"
    and "depth < max_depth" and "url \<notin> visited st" and "fetch_url env url = Inr html"
    and "collect_links env base (find_all_a_href (html_parser env html)) = Inr ls"
  shows "sitemap st' ! length (sitemap st) = Page url (title_of (html_parser env html)) ls"
proof -
  let ?st1 = "st\<lparr>visited := insert url (visited st), fetched := fetched st @ [url]\<rparr>"
  let ?st2 = "?st1\<lparr>sitemap := sitemap ?st1 @ [Page url (title_of (html_parser env html)) []]\<rparr>"
  have "crawl_links env base max_depth n url depth (length (sitemap st))
          (find_all_a_href (html_parser env html)) ?st2 = Some st'"
    using assms(1-4) by (simp add: Let_def)
  from crawl_sitemap_aux(2) [rule_format, OF this]
  have "length (sitemap st) < length (sitemap ?st2) \<longrightarrow>
          (\<forall>ls. collect_links env base (find_all_a_href (html_parser env html)) = Inr ls \<longrightarrow>
             sitemap st' ! length (sitemap st) = add_links ls (sitemap ?st2 ! length (sitemap st)))"
    by blast
  then have "sitemap st' ! length (sitemap st) = add_links ls (sitemap ?st2 ! length (sitemap st))"
    using assms(5) by simp
  then show ?thesis by (simp add: add_links_Page)
qed

text \<open>
  Two pages that link to each other and to themselves: \<open>/a\<close> is twice in the links of
  the seed, both URLs are in the links of both entries, and each URL was fetched once.
\<close>

lemma links_repeat_at_loop_site:
  "map_option (\<lambda>st. (sitemap st, fetched st))
     (crawl loop_env ''https://example.com'' 3 (Suc 2) ''https://example.com/'' 1 init_state)
   = Some ([Page ''https://example.com/'' ''No title''
              [(''https://example.com/a'', ''A''), (''https://example.com/a'', ''A again''),
               (''https://example.com/'', ''Home'')],
            Page ''https://example.com/a'' ''No title''
              [(''https://example.com/'', ''Home''), (''https://example.com/a'', ''Self'')]],
           [''https://example.com/'', ''https://example.com/a''])"
  by code_simp

text \<open>
  C10, at the input where the code departs from it. The seed page has the one link
  \<open><a href=/a>A</a>\<close>, and the page \<open>/a\<close> has the one link
  \<open><a href=//[>x</a>\<close>. With \<open>max_depth = 3\<close> the link to \<open>/a\<close> is
  appended to the \<open>links\<close> of the seed's entry and \<open>/a\<close> is crawled: its entry
  is appended, then \<open>normalize_url\<close> raises on its link and the \<open>except\<close>
  of that call appends \<open>{url, error}\<close> for \<open>/a\<close>. The URL in the
  \<open>links\<close> array of the seed has two entries in the sitemap, not at most one.
\<close>

theorem linked_page_two_entries:
  "fetch_url nested_env ''https://example.com/'' = Inr link_html
   \<and> find_all_a_href (html_parser nested_env link_html)
       = [Tag ''a'' [(''href'', ''/a'')] [NavigableString ''A'']]
   \<and> fetch_url nested_env ''https://example.com/a'' = Inr bracket_html
   \<and> find_all_a_href (html_parser nested_env bracket_html)
       = [Tag ''a'' [(''href'', ''//['')] [NavigableString ''x'']]
   \<and> create_site_map nested_env 3 ''https://example.com/'' 3 =
       Some (Inr \<lparr>base_url = ''https://example.com'', pages = 3,
                  sitemap_of =
                    [Page ''https://example.com/'' ''No title'' [(''https://example.com/a'', ''A'')],
                     Page ''https://example.com/a'' ''No title'' [],
                     Failed ''https://example.com/a'' ''Invalid IPv6 URL'']\<rparr>)"
  by code_simp


end
